theory Spec2Isabelle
  imports Main "HOL-Library.Word"
begin

unbundle bit_operations_syntax

section \<open>Constants of the plotter\<close>

text \<open>
  \<^verbatim>\<open>phase1.hpp\<close> uses the constants \<^verbatim>\<open>kB\<close>, \<^verbatim>\<open>kC\<close>, \<^verbatim>\<open>kBC\<close>, \<^verbatim>\<open>kExtraBits\<close>,
  \<^verbatim>\<open>kExtraBitsPow\<close> and the table \<^verbatim>\<open>kVectorLens\<close>; they are declared in a header that
  is not part of the sources at hand, so every function below takes them as a
  parameter.  The size parameter \<^verbatim>\<open>k_ = 32\<close> is written in the source itself.
\<close>

record params =
  kB :: nat
  kC :: nat
  kBC :: nat
  kExtraBits :: nat
  kExtraBitsPow :: nat
  kVectorLens :: "nat list"

text \<open>
  What the source and the specification say about the constants: \<open>BC = B * C\<close> and
  \<open>E_pow = 2 ^ E\<close> (glossary); \<^verbatim>\<open>load_tables\<close> counts up to \<^verbatim>\<open>kBC\<close> and to
  \<^verbatim>\<open>kExtraBitsPow\<close> in a \<^verbatim>\<open>uint16_t\<close> and stores residues in \<^verbatim>\<open>uint16_t\<close>, so both
  are below \<open>2 ^ 16\<close>; with \<open>E \<le> 14\<close> the \<^verbatim>\<open>int\<close> arithmetic of \<^verbatim>\<open>load_tables\<close>
  stays below \<open>2 ^ 31\<close>.
\<close>

definition params_ok :: "params \<Rightarrow> bool" where
  "params_ok c \<longleftrightarrow>
     0 < kB c \<and> 0 < kC c \<and> kBC c = kB c * kC c \<and> kBC c < 65536 \<and>
     kExtraBitsPow c = 2 ^ kExtraBits c \<and> kExtraBits c \<le> 14"

text \<open>The values of the constants in the Chia proof-of-space construction.\<close>

definition chia :: params where
  "chia = \<lparr> kB = 119, kC = 127, kBC = 15113, kExtraBits = 6, kExtraBitsPow = 64,
            kVectorLens = [0, 0, 1, 2, 4, 4, 3, 2] \<rparr>"

section \<open>The target table\<close>

text \<open>
  \<^verbatim>\<open>static uint16_t L_targets[2][kBC][kExtraBitsPow]\<close> is a zero-initialised global; it
  is modelled as a function of the three indices, and every read checks the bounds of
  the array.  \<^verbatim>\<open>load_tables\<close> fills it in three nested loops.  The right-hand side is
  computed in \<^verbatim>\<open>int\<close> and stored in a \<^verbatim>\<open>uint16_t\<close>, hence the \<open>mod 65536\<close>.
\<close>

type_synonym targets = "nat \<Rightarrow> nat \<Rightarrow> nat \<Rightarrow> nat"

definition target_yr :: "params \<Rightarrow> nat \<Rightarrow> nat \<Rightarrow> nat \<Rightarrow> nat" where
  "target_yr c parity i m =
     (let indJ = i div kC c in
      (((indJ + m) mod kB c) * kC c + (((2 * m + parity) * (2 * m + parity) + i) mod kC c))
        mod 65536)"

definition load_m :: "params \<Rightarrow> nat \<Rightarrow> nat \<Rightarrow> targets \<Rightarrow> targets" where
  "load_m c parity i T =
     fold (\<lambda>m T. T(parity := (T parity)(i := (T parity i)(m := target_yr c parity i m))))
       [0..<kExtraBitsPow c] T"

definition load_i :: "params \<Rightarrow> nat \<Rightarrow> targets \<Rightarrow> targets" where
  "load_i c parity T = fold (load_m c parity) [0..<kBC c] T"

definition load_tables :: "params \<Rightarrow> targets" where
  "load_tables c = fold (load_i c) [0..<2] (\<lambda>parity i m. 0)"

section \<open>Entries\<close>

text \<open>
  The entry types are declared in a header outside the sources at hand.  The matcher and
  the slicer read only the field \<^verbatim>\<open>y\<close> (a \<^verbatim>\<open>uint64_t\<close>) of an entry, so they are
  modelled over any extension of the record \<open>entry_y\<close>.  A Table-1 entry adds the
  32-bit \<^verbatim>\<open>x\<close> (data model of the specification).
\<close>

record entry_y =
  y :: "64 word"

record entry_1 = entry_y +
  x :: "32 word"

text \<open>
  What can go wrong in the source: an array or a \<^verbatim>\<open>std::vector\<close> indexed outside its
  bounds, a write behind the end of the index buffers, an \<^verbatim>\<open>int\<close> incremented beyond its
  largest value, a null \<^verbatim>\<open>shared_ptr\<close> dereferenced (all four undefined behaviour in
  C++), and the exception \<^verbatim>\<open>std::logic_error\<close> with its message.
\<close>

datatype fault =
  IndexOutOfRange | BufferOverrun | IntegerOverflow | NullDereference | LogicError string

text \<open>A loop over \<open>xs\<close> whose body may fail: the first failure ends the loop.\<close>

primrec fold_err :: "('a \<Rightarrow> 's \<Rightarrow> fault + 's) \<Rightarrow> 'a list \<Rightarrow> 's \<Rightarrow> fault + 's" where
  "fold_err f [] s = Inr s"
| "fold_err f (a # as) s = (case f a s of Inl e \<Rightarrow> Inl e | Inr s' \<Rightarrow> fold_err f as s')"

section \<open>Table 1: \<^verbatim>\<open>F1Calculator\<close>\<close>

text \<open>
  The stream cipher is an external primitive: \<open>ks key index n\<close> stands for the bytes
  that \<^verbatim>\<open>chacha8_get_keystream(&ctx, index, n, buf)\<close> writes to \<^verbatim>\<open>buf\<close> for a context
  set up with \<open>key\<close> (\<open>64 * n\<close> bytes).  The constructor builds the key: the byte 1
  followed by the first 31 bytes of the plot id.
\<close>

type_synonym keystream = "8 word list \<Rightarrow> 64 word \<Rightarrow> nat \<Rightarrow> 8 word list"

definition F1Calculator :: "8 word list \<Rightarrow> 8 word list" where
  "F1Calculator orig_key = 1 # take 31 orig_key"

text \<open>
  \<^verbatim>\<open>uint64_t y = 0; memcpy(&y, buf + i * 4, 4)\<close> overwrites the first four of the eight
  bytes of \<^verbatim>\<open>y\<close>; on a little-endian machine (the only ones the plotter runs on) the
  bytes of \<^verbatim>\<open>y\<close> are read back least significant first.
\<close>

primrec u64_of_bytes :: "8 word list \<Rightarrow> 64 word" where
  "u64_of_bytes [] = 0"
| "u64_of_bytes (b # bs) = ucast b + 256 * u64_of_bytes bs"

definition memcpy_y :: "8 word list \<Rightarrow> nat \<Rightarrow> 64 word" where
  "memcpy_y buf offs = u64_of_bytes (take 4 (drop offs buf) @ [0, 0, 0, 0])"

definition x_part :: "params \<Rightarrow> 64 word \<Rightarrow> 64 word" where
  "x_part c xv = drop_bit (32 - kExtraBits c) xv"

definition entry_1_of :: "params \<Rightarrow> 8 word list \<Rightarrow> 64 word \<Rightarrow> nat \<Rightarrow> entry_1" where
  "entry_1_of c buf index i =
     (let y0 = memcpy_y buf (i * 4);
          x0 = index * 16 + of_nat i
      in \<lparr> y = push_bit (kExtraBits c) y0 OR x_part c x0, x = ucast x0 \<rparr>)"

definition compute_entry_1_block ::
    "params \<Rightarrow> keystream \<Rightarrow> 8 word list \<Rightarrow> 64 word \<Rightarrow> entry_1 list" where
  "compute_entry_1_block c ks enc_key index =
     (let buf = ks enc_key index 1 in map (entry_1_of c buf index) [0..<16])"

text \<open>
  \<^verbatim>\<open>compute_f1\<close>: the task of the pool computes, for the block number it is given,
  \<open>M = 4096\<close> keystream blocks of 16 entries each; the driver submits the block numbers
  \<open>0 \<le> k < 2^28 / M / 4\<close> and waits.  The result is the list of the chunks handed
  to the output, here in the order of submission (the pool may deliver them in another
  order).
\<close>

definition M :: nat where
  "M = 4096"

definition compute_f1_task :: "params \<Rightarrow> keystream \<Rightarrow> 8 word list \<Rightarrow> 64 word \<Rightarrow> entry_1 list" where
  "compute_f1_task c ks plot_id block =
     concat (map (\<lambda>i. compute_entry_1_block c ks (F1Calculator plot_id) (block * of_nat M + of_nat i))
                 [0..<M])"

definition compute_f1 :: "params \<Rightarrow> keystream \<Rightarrow> 8 word list \<Rightarrow> entry_1 list list" where
  "compute_f1 c ks plot_id =
     map (\<lambda>k. compute_f1_task c ks plot_id (of_nat k)) [0..<2 ^ 28 div M div 4]"

text \<open>
  The words of the specification for one Table-1 entry: the 32-bit \<open>x\<close> is
  \<open>index * 16 + i\<close>, and \<open>y\<close> is the little-endian 32-bit word at offset \<open>4 * i\<close> of
  the keystream block, shifted left by \<open>E\<close> bits and combined with the top \<open>E\<close> bits of
  the 32-bit \<open>x\<close>.
\<close>

definition le32 :: "8 word list \<Rightarrow> nat \<Rightarrow> 32 word" where
  "le32 buf offs =
     of_nat (unat (buf ! offs) + 256 * unat (buf ! (offs + 1)) + 65536 * unat (buf ! (offs + 2))
             + 16777216 * unat (buf ! (offs + 3)))"

definition entry_1_spec :: "params \<Rightarrow> 8 word list \<Rightarrow> 64 word \<Rightarrow> nat \<Rightarrow> entry_1 \<Rightarrow> bool" where
  "entry_1_spec c buf index i e \<longleftrightarrow>
     unat (x e) = unat index * 16 + i \<and>
     y e = push_bit (kExtraBits c) (ucast (le32 buf (i * 4)))
             OR ucast (drop_bit (32 - kExtraBits c) (x e))"

text \<open>Two stand-ins for the cipher, for concrete runs: all bytes zero, and bytes that count.\<close>

definition zero_ks :: keystream where
  "zero_ks key index n = replicate (64 * n) 0"

definition count_ks :: keystream where
  "count_ks key index n = map of_nat [0..<64 * n]"

section \<open>The table-transition drive: the slicing stage\<close>

text \<open>
  The \<^verbatim>\<open>read_thread\<close> of \<^verbatim>\<open>compute_matches\<close> captures three two-slot arrays by
  reference: \<^verbatim>\<open>L_index\<close>, \<^verbatim>\<open>L_offset\<close> and \<^verbatim>\<open>L_bucket\<close>; slot 0 is the current bucket,
  slot 1 the previous one.  Each array is a pair (slot 0, slot 1); a \<^verbatim>\<open>shared_ptr\<close> to a
  bucket is \<open>None\<close> when null.  All three start zero-initialised.  A \<^verbatim>\<open>match_input_t\<close>
  is a copy of the offsets and the bucket pointers.
\<close>

record 'a slicer =
  L_index :: "64 word \<times> 64 word"
  L_offset :: "64 word \<times> 64 word"
  L_bucket :: "'a list option \<times> 'a list option"

type_synonym 'a match_input_t = "(64 word \<times> 64 word) \<times> ('a list option \<times> 'a list option)"

definition slicer_init :: "'a slicer" where
  "slicer_init = \<lparr> L_index = (0, 0), L_offset = (0, 0), L_bucket = (None, None) \<rparr>"

text \<open>
  The body of the loop over the entries of one input block.  The state is the slicer
  and the vector \<^verbatim>\<open>out\<close> of matching jobs collected so far.
\<close>

definition slice_rotate ::
    "64 word \<Rightarrow> 'a slicer \<times> 'a match_input_t list \<Rightarrow> fault + 'a slicer \<times> 'a match_input_t list" where
  "slice_rotate index st =
     (let (s, out) = st;
          out1 = (if snd (L_index s) + 1 = fst (L_index s)
                  then out @ [(L_offset s, L_bucket s)] else out)
      in case fst (L_bucket s) of
           None \<Rightarrow> Inl NullDereference
         | Some b0 \<Rightarrow>
             Inr (s \<lparr> L_index := (index, fst (L_index s)),
                      L_offset := (fst (L_offset s) + of_nat (length b0), fst (L_offset s)),
                      L_bucket := (None, Some b0) \<rparr>, out1))"

definition slice_push :: "'a \<Rightarrow> 'a slicer \<Rightarrow> 'a slicer" where
  "slice_push entry s =
     (let b0 = (case fst (L_bucket s) of None \<Rightarrow> [] | Some b \<Rightarrow> b)
      in s \<lparr> L_bucket := (Some (b0 @ [entry]), snd (L_bucket s)) \<rparr>)"

definition slice_entry ::
    "params \<Rightarrow> 'a entry_y_scheme \<Rightarrow> 'a entry_y_scheme slicer \<times> 'a entry_y_scheme match_input_t list
       \<Rightarrow> fault + 'a entry_y_scheme slicer \<times> 'a entry_y_scheme match_input_t list" where
  "slice_entry c entry st =
     (let index = y entry div of_nat (kBC c) in
      if index < fst (L_index (fst st)) then Inl (LogicError ''input not sorted'')
      else case (if index > fst (L_index (fst st)) then slice_rotate index st else Inr st) of
             Inl e \<Rightarrow> Inl e
           | Inr (s, out) \<Rightarrow> Inr (slice_push entry s, out))"

text \<open>
  One call of the \<^verbatim>\<open>read_thread\<close> on an input block: the slicer after the block and
  the jobs passed to the matcher pool.  (The copy of the block to \<^verbatim>\<open>L_tmp_out\<close> does not
  touch the slicer and is left out.)  \<^verbatim>\<open>L_sort->read\<close> calls it block after block.
\<close>

definition read_block ::
    "params \<Rightarrow> 'a entry_y_scheme list \<Rightarrow> 'a entry_y_scheme slicer
       \<Rightarrow> fault + 'a entry_y_scheme slicer \<times> 'a entry_y_scheme match_input_t list" where
  "read_block c input s = fold_err (slice_entry c) input (s, [])"

definition read_stream ::
    "params \<Rightarrow> 'a entry_y_scheme list list
       \<Rightarrow> 'a entry_y_scheme slicer \<times> 'a entry_y_scheme match_input_t list list
       \<Rightarrow> fault + 'a entry_y_scheme slicer \<times> 'a entry_y_scheme match_input_t list list" where
  "read_stream c blocks st =
     fold_err (\<lambda>input (s, jobs).
                 case read_block c input s of
                   Inl e \<Rightarrow> Inl e
                 | Inr (s', out) \<Rightarrow> Inr (s', jobs @ [out]))
       blocks st"

text \<open>The bucket index of an entry in the words of the specification: \<open>floor (y / BC)\<close>.\<close>

definition bucket_index :: "params \<Rightarrow> 'a entry_y_scheme \<Rightarrow> nat" where
  "bucket_index c e = unat (y e) div kBC c"

text \<open>The slicer after a run, without the jobs it emitted.\<close>

definition state_of :: "fault + 's \<times> 'o \<Rightarrow> fault + 's" where
  "state_of r = (case r of Inl e \<Rightarrow> Inl e | Inr v \<Rightarrow> Inr (fst v))"

text \<open>The fault of a run, if it ends in one.\<close>

definition fault_of :: "fault + 'a \<Rightarrow> fault option" where
  "fault_of r = (case r of Inl e \<Rightarrow> Some e | Inr v \<Rightarrow> None)"

text \<open>The current slot holds a bucket (its pointer is not null).\<close>

definition cur_ok :: "'a slicer \<Rightarrow> bool" where
  "cur_ok s = (fst (L_bucket s) \<noteq> None)"

section \<open>The bucket matcher: \<^verbatim>\<open>FxMatcher\<close>\<close>

text \<open>
  An \<^verbatim>\<open>rmap_item\<close> holds two \<^verbatim>\<open>uint16_t\<close>: the position of the first entry of the right
  bucket with a residue, and the number of entries with it (the fields \<^verbatim>\<open>pos\<close> and
  \<^verbatim>\<open>count\<close> of the source).  The matcher owns \<^verbatim>\<open>rmap\<close>, a vector resized to \<^verbatim>\<open>kBC\<close>
  zero items by the constructor and never resized again, and the vector \<^verbatim>\<open>rmap_clean\<close> of
  the residues to reset.  \<^verbatim>\<open>rmap\<close> is modelled as a function of the index; every access
  checks the index against the size \<^verbatim>\<open>kBC\<close>.
\<close>

record rmap_item =
  r_pos :: "16 word"
  r_count :: "16 word"

record FxMatcher =
  rmap :: "nat \<Rightarrow> rmap_item"
  rmap_clean :: "16 word list"

definition FxMatcher_new :: FxMatcher where
  "FxMatcher_new = \<lparr> rmap = (\<lambda>i. \<lparr> r_pos = 0, r_count = 0 \<rparr>), rmap_clean = [] \<rparr>"

text \<open>\<^verbatim>\<open>for (auto yl : rmap_clean) rmap[yl].count = 0; rmap_clean.clear();\<close>\<close>

definition rmap_reset :: "params \<Rightarrow> FxMatcher \<Rightarrow> fault + FxMatcher" where
  "rmap_reset c m =
     (case fold_err (\<lambda>yl rm. if unat yl < kBC c
                               then Inr (rm (unat yl := (rm (unat yl)) \<lparr> r_count := 0 \<rparr>))
                               else Inl IndexOutOfRange)
             (rmap_clean m) (rmap m) of
        Inl e \<Rightarrow> Inl e
      | Inr rm \<Rightarrow> Inr \<lparr> rmap = rm, rmap_clean = [] \<rparr>)"

text \<open>
  The body of the loop over the right bucket.  \<^verbatim>\<open>r_y\<close> is a 64-bit difference; the
  position \<^verbatim>\<open>pos_R\<close> (a \<^verbatim>\<open>size_t\<close>) is cut to 16 bits when stored, the count wraps at
  \<open>2^16\<close>, and \<^verbatim>\<open>r_y\<close> is cut to 16 bits when pushed to \<^verbatim>\<open>rmap_clean\<close>.
\<close>

definition rmap_add ::
    "params \<Rightarrow> 64 word \<Rightarrow> 'a entry_y_scheme list \<Rightarrow> nat \<Rightarrow> FxMatcher \<Rightarrow> fault + FxMatcher" where
  "rmap_add c offset bucket_R pos_R m =
     (let r_y = y (bucket_R ! pos_R) - offset in
      if unat r_y < kBC c then
        let it = rmap m (unat r_y);
            it1 = (if r_count it = 0 then it \<lparr> r_pos := of_nat pos_R \<rparr> else it);
            it2 = it1 \<lparr> r_count := r_count it1 + 1 \<rparr>
        in Inr \<lparr> rmap = (rmap m) (unat r_y := it2), rmap_clean = rmap_clean m @ [ucast r_y] \<rparr>
      else Inl IndexOutOfRange)"

text \<open>
  The index buffers \<^verbatim>\<open>idx_L\<close> and \<^verbatim>\<open>idx_R\<close> are passed as bare pointers.  The model
  keeps the pairs written so far (their number is \<^verbatim>\<open>idx_count\<close>) and is told the length
  \<open>cap\<close> of the arrays behind the pointers: a write at \<^verbatim>\<open>idx_count \<ge> cap\<close> is behind
  their end.
\<close>

type_synonym idx_buf = "(16 word \<times> 16 word) list"

text \<open>
  \<^verbatim>\<open>idx_count\<close> is an \<^verbatim>\<open>int\<close> (32 bits): the statements
  \<^verbatim>\<open>idx_L[idx_count] = \<dots>; idx_R[idx_count] = \<dots>; idx_count++;\<close> first write, then
  increment, and the increment of the largest \<^verbatim>\<open>int\<close> overflows.
\<close>

definition INT_MAX :: nat where
  "INT_MAX = 2 ^ 31 - 1"

definition idx_write :: "nat \<Rightarrow> 16 word \<Rightarrow> 16 word \<Rightarrow> idx_buf \<Rightarrow> fault + idx_buf" where
  "idx_write cap l r idx =
     (if length idx < cap
      then (if length idx < INT_MAX then Inr (idx @ [(l, r)]) else Inl IntegerOverflow)
      else Inl BufferOverrun)"

text \<open>
  The number of pairs that can be written without a fault, and the fault of the first
  write beyond it.
\<close>

definition idx_limit :: "nat \<Rightarrow> nat" where
  "idx_limit cap = min cap INT_MAX"

definition idx_fault :: "nat \<Rightarrow> fault" where
  "idx_fault cap = (if cap \<le> INT_MAX then BufferOverrun else IntegerOverflow)"

text \<open>
  The two inner loops for one left entry with residue \<open>r\<close> at position \<open>pos_L\<close>: for
  each of the \<^verbatim>\<open>kExtraBitsPow\<close> targets, one pair per entry counted for the target.
  \<^verbatim>\<open>rmap[r_target].pos + j\<close> is computed as a \<^verbatim>\<open>size_t\<close> and stored in 16 bits.
\<close>

definition match_targets ::
    "params \<Rightarrow> targets \<Rightarrow> nat \<Rightarrow> FxMatcher \<Rightarrow> nat \<Rightarrow> nat \<Rightarrow> nat \<Rightarrow> idx_buf \<Rightarrow> fault + idx_buf" where
  "match_targets c L_targets cap m parity r pos_L idx =
     fold_err (\<lambda>i idx.
         if r < kBC c then
           let r_target = L_targets parity r i in
           if r_target < kBC c then
             fold_err (\<lambda>j. idx_write cap (of_nat pos_L)
                               (of_nat (unat (r_pos (rmap m r_target)) + j)))
               [0..<unat (r_count (rmap m r_target))] idx
           else Inl IndexOutOfRange
         else Inl IndexOutOfRange)
       [0..<kExtraBitsPow c] idx"

text \<open>
  \<^verbatim>\<open>find_matches_ex\<close>.  The global table is the argument \<open>L_targets\<close>; the result is the
  pairs \<open>(idx_L[k], idx_R[k])\<close> for \<open>k < idx_count\<close> and the matcher after the call.  The
  returned \<^verbatim>\<open>int idx_count\<close> is the length of the list of pairs, which \<open>idx_write\<close> keeps
  at most \<open>INT_MAX\<close>.
\<close>

definition find_matches_ex ::
    "params \<Rightarrow> targets \<Rightarrow> nat \<Rightarrow> FxMatcher \<Rightarrow> 'a entry_y_scheme list \<Rightarrow> 'a entry_y_scheme list
       \<Rightarrow> fault + idx_buf \<times> FxMatcher" where
  "find_matches_ex c L_targets cap m bucket_L bucket_R =
     (if bucket_L = [] \<or> bucket_R = [] then Inr ([], m)
      else
        let parity = unat ((y (bucket_L ! 0) div of_nat (kBC c)) mod 2) in
        case rmap_reset c m of
          Inl e \<Rightarrow> Inl e
        | Inr m1 \<Rightarrow>
            let offset = (y (bucket_R ! 0) div of_nat (kBC c)) * of_nat (kBC c) in
            case fold_err (rmap_add c offset bucket_R) [0..<length bucket_R] m1 of
              Inl e \<Rightarrow> Inl e
            | Inr m2 \<Rightarrow>
                let offset_y = offset - of_nat (kBC c) in
                case fold_err (\<lambda>pos_L.
                         match_targets c L_targets cap m2 parity
                           (unat (y (bucket_L ! pos_L) - offset_y)) pos_L)
                       [0..<length bucket_L] [] of
                  Inl e \<Rightarrow> Inl e
                | Inr idx \<Rightarrow> Inr (idx, m2))"

text \<open>
  \<^verbatim>\<open>find_matches\<close> calls \<^verbatim>\<open>find_matches_ex\<close> with two arrays of \<^verbatim>\<open>kBC\<close> elements on its
  stack and builds one \<^verbatim>\<open>match_t\<close> per pair.  \<^verbatim>\<open>L_pos_begin + idx_L[i]\<close> is a 32-bit sum,
  \<^verbatim>\<open>idx_R[i] + (bucket_L.size() - idx_L[i])\<close> a 64-bit one; both are converted to the
  types of the fields \<^verbatim>\<open>pos\<close> and \<^verbatim>\<open>off\<close>, which are declared outside the sources at
  hand: the model leaves their widths \<open>'p\<close> and \<open>'o\<close> open.
\<close>

record ('a, 'p, 'o) match_t =
  left :: 'a
  right :: 'a
  pos :: 'p
  off :: 'o

definition make_match ::
    "32 word \<Rightarrow> 'a list \<Rightarrow> 'a list \<Rightarrow> 16 word \<times> 16 word
       \<Rightarrow> fault + ('a, 'p::len word, 'o::len word) match_t" where
  "make_match L_pos_begin bucket_L bucket_R p =
     (let idx_L = fst p; idx_R = snd p in
      if unat idx_L < length bucket_L \<and> unat idx_R < length bucket_R then
        Inr \<lparr> left = bucket_L ! unat idx_L,
              right = bucket_R ! unat idx_R,
              pos = ucast (L_pos_begin + ucast idx_L),
              off = ucast (ucast idx_R + (of_nat (length bucket_L) - ucast idx_L) :: 64 word) \<rparr>
      else Inl IndexOutOfRange)"

definition find_matches ::
    "params \<Rightarrow> targets \<Rightarrow> FxMatcher \<Rightarrow> 32 word \<Rightarrow> 'a entry_y_scheme list \<Rightarrow> 'a entry_y_scheme list
       \<Rightarrow> fault + ('a entry_y_scheme, 'p::len word, 'o::len word) match_t list \<times> FxMatcher" where
  "find_matches c L_targets m L_pos_begin bucket_L bucket_R =
     (case find_matches_ex c L_targets (kBC c) m bucket_L bucket_R of
        Inl e \<Rightarrow> Inl e
      | Inr (idx, m') \<Rightarrow>
          (case fold_err (\<lambda>p out. case make_match L_pos_begin bucket_L bucket_R p of
                                     Inl e \<Rightarrow> Inl e
                                   | Inr mt \<Rightarrow> Inr (out @ [mt]))
                  idx [] of
             Inl e \<Rightarrow> Inl e
           | Inr out \<Rightarrow> Inr (out, m')))"

subsection \<open>The matching relation of the specification\<close>

text \<open>
  Section 4.4: with \<open>yl\<close> from the left and \<open>yr\<close> from the right bucket, the two bucket
  indices differ by exactly 1, and there is an \<open>m\<close> in \<open>[0, E_pow)\<close> with
  \<open>(yr mod BC) / C - (yl mod BC) / C \<equiv> m (mod B)\<close> and
  \<open>(yr mod BC) mod C - (yl mod BC) mod C \<equiv> (2 m + parity)\<^sup>2 (mod C)\<close>, where
  \<open>parity = (yl / BC) mod 2\<close>.  The differences are taken in the integers.
\<close>

definition matching :: "params \<Rightarrow> nat \<Rightarrow> nat \<Rightarrow> bool" where
  "matching c yl yr \<longleftrightarrow>
     int (yr div kBC c) - int (yl div kBC c) = 1 \<and>
     (\<exists>m\<in>{0..<kExtraBitsPow c}.
        (int ((yr mod kBC c) div kC c) - int ((yl mod kBC c) div kC c)) mod int (kB c)
          = int m mod int (kB c) \<and>
        (int ((yr mod kBC c) mod kC c) - int ((yl mod kBC c) mod kC c)) mod int (kC c)
          = int ((2 * m + (yl div kBC c) mod 2)\<^sup>2) mod int (kC c))"

text \<open>The brute-force scan over all pairs of positions.\<close>

definition brute_force ::
    "params \<Rightarrow> 'a entry_y_scheme list \<Rightarrow> 'a entry_y_scheme list \<Rightarrow> (nat \<times> nat) list" where
  "brute_force c bucket_L bucket_R =
     concat (map (\<lambda>i. concat (map (\<lambda>j.
         if matching c (unat (y (bucket_L ! i))) (unat (y (bucket_R ! j))) then [(i, j)] else [])
       [0..<length bucket_R])) [0..<length bucket_L])"

text \<open>A bucket: all entries have the bucket index \<open>b\<close>.  Entries with one \<open>y\<close> are contiguous.\<close>

definition in_bucket :: "params \<Rightarrow> nat \<Rightarrow> 'a entry_y_scheme list \<Rightarrow> bool" where
  "in_bucket c b es \<longleftrightarrow> (\<forall>e\<in>set es. bucket_index c e = b)"

definition contiguous :: "'a entry_y_scheme list \<Rightarrow> bool" where
  "contiguous es \<longleftrightarrow>
     (\<forall>j\<in>set [0..<length es]. \<forall>i\<in>set [0..<Suc j]. \<forall>k\<in>set [i..<Suc j].
        y (es ! i) = y (es ! j) \<longrightarrow> y (es ! k) = y (es ! i))"

text \<open>
  The state of a matcher between calls: every residue with a non-zero count is listed in
  \<^verbatim>\<open>rmap_clean\<close>, and \<^verbatim>\<open>rmap_clean\<close> lists indices of \<^verbatim>\<open>rmap\<close> only.
\<close>

definition FxMatcher_inv :: "params \<Rightarrow> FxMatcher \<Rightarrow> bool" where
  "FxMatcher_inv c m \<longleftrightarrow>
     (\<forall>w\<in>set (rmap_clean m). unat w < kBC c) \<and>
     (\<forall>r\<in>{..<kBC c}. r_count (rmap m r) \<noteq> 0 \<longrightarrow> r \<in> unat ` set (rmap_clean m))"

text \<open>
  The number of writes to the index buffers: for every left entry and every \<open>m\<close>, the
  number of right entries whose residue is the target.
\<close>

definition match_count ::
    "params \<Rightarrow> 'a entry_y_scheme list \<Rightarrow> 'a entry_y_scheme list \<Rightarrow> nat" where
  "match_count c bucket_L bucket_R =
     sum_list (map (\<lambda>l. sum_list (map (\<lambda>m.
         length (filter (\<lambda>e. unat (y e) mod kBC c
                     = target_yr c (bucket_index c l mod 2) (unat (y l) mod kBC c) m) bucket_R))
       [0..<kExtraBitsPow c])) bucket_L)"

text \<open>
  The pairs that the two inner loops write for one left entry, and the pairs of a whole
  call, as lists (used to state what the loops compute).
\<close>

definition target_hits :: "params \<Rightarrow> targets \<Rightarrow> FxMatcher \<Rightarrow> nat \<Rightarrow> nat \<Rightarrow> nat \<Rightarrow> idx_buf" where
  "target_hits c T m p r pos_L =
     concat (map (\<lambda>i. map (\<lambda>j. (of_nat pos_L, of_nat (unat (r_pos (rmap m (T p r i))) + j)))
                         [0..<unat (r_count (rmap m (T p r i)))])
                 [0..<kExtraBitsPow c])"

definition bucket_hits ::
    "params \<Rightarrow> targets \<Rightarrow> FxMatcher \<Rightarrow> nat \<Rightarrow> 'a entry_y_scheme list \<Rightarrow> idx_buf" where
  "bucket_hits c T m p bucket_L =
     concat (map (\<lambda>pos_L. target_hits c T m p (unat (y (bucket_L ! pos_L)) mod kBC c) pos_L)
                 [0..<length bucket_L])"

section \<open>The generator of the tables after the first\<close>

subsection \<open>Bit strings\<close>

text \<open>
  Modelled from the spec: the class \<^verbatim>\<open>Bits\<close>, the bit-packing utility, is not in the
  sources.  The spec gives its interface: a value is constructed from raw bytes and a bit
  length, values are concatenated by \<^verbatim>\<open>+\<close>, sliced by a bit range and serialised to
  bytes by \<^verbatim>\<open>ToBytes\<close>, all of it at bit level.  A value is the list of its bits, the
  first bit first; a byte holds eight bits, the most significant first, and \<^verbatim>\<open>ToBytes\<close>
  fills the last byte with zero bits.
\<close>

type_synonym Bits = "bool list"

definition byte_bits :: "8 word \<Rightarrow> Bits" where
  "byte_bits b = rev (map (bit b) [0..<8])"

definition bits_byte :: "Bits \<Rightarrow> 8 word" where
  "bits_byte bs = horner_sum of_bool 2 (rev bs)"

text \<open>\<^verbatim>\<open>Bits(bytes, num_bytes, size_bits)\<close> and \<^verbatim>\<open>Bits(value, size)\<close>.\<close>

definition Bits_bytes :: "8 word list \<Rightarrow> nat \<Rightarrow> nat \<Rightarrow> Bits" where
  "Bits_bytes bytes num_bytes size_bits =
     take size_bits (concat (map byte_bits (take num_bytes bytes)))"

definition Bits_value :: "nat \<Rightarrow> nat \<Rightarrow> Bits" where
  "Bits_value v size_bits = rev (map (bit v) [0..<size_bits])"

definition Bits_plus :: "Bits \<Rightarrow> Bits \<Rightarrow> Bits" where
  "Bits_plus a b = a @ b"

definition Slice :: "Bits \<Rightarrow> nat \<Rightarrow> nat \<Rightarrow> Bits" where
  "Slice bs start_index end_index = take (end_index - start_index) (drop start_index bs)"

definition GetSize :: "Bits \<Rightarrow> nat" where
  "GetSize bs = length bs"

definition GetValue :: "Bits \<Rightarrow> nat" where
  "GetValue bs = horner_sum of_bool 2 (rev bs)"

fun ToBytes :: "Bits \<Rightarrow> 8 word list" where
  "ToBytes [] = []"
| "ToBytes (b # bs) = bits_byte (take 8 (b # bs @ replicate 7 False)) # ToBytes (drop 7 bs)"

subsection \<open>One evaluation of the f function\<close>

text \<open>
  \<^verbatim>\<open>FxCalculator::evaluate\<close> calls helpers that are not in the sources; they are
  parameters: the hash \<^verbatim>\<open>blake3\<close> of a byte string, \<^verbatim>\<open>Util::EightBytesToInt\<close>, and
  \<^verbatim>\<open>get_metadata\<close>, which gives the metadata bytes of an input entry (their number is
  \<^verbatim>\<open>L_meta_bytes\<close>).  \<^verbatim>\<open>cdiv\<close> is not in the sources either; it is the quotient rounded
  up, the number of bytes that hold a number of bits.
\<close>

record 'e helpers =
  blake3 :: "8 word list \<Rightarrow> 8 word list"
  EightBytesToInt :: "8 word list \<Rightarrow> 64 word"
  get_metadata :: "'e \<Rightarrow> 8 word list"

definition cdiv :: "nat \<Rightarrow> nat \<Rightarrow> nat" where
  "cdiv a b = (a + b - 1) div b"

definition k_bits :: nat where
  "k_bits = 32"

text \<open>The output entry: \<^verbatim>\<open>y\<close> and the byte array \<^verbatim>\<open>c\<close>.\<close>

record entry_c = entry_y +
  c_arr :: "8 word list"

text \<open>
  The bit string \<^verbatim>\<open>input\<close> that is hashed.  The metadata buffers \<^verbatim>\<open>L_meta\<close> and
  \<^verbatim>\<open>R_meta\<close> have 16 bytes and \<^verbatim>\<open>input_bytes\<close> has 64.
\<close>

definition evaluate_input ::
    "params \<Rightarrow> 'a entry_y_scheme helpers \<Rightarrow> int \<Rightarrow> 'a entry_y_scheme \<Rightarrow> 'a entry_y_scheme
       \<Rightarrow> fault + Bits" where
  "evaluate_input c h table_index L R =
     (let L_meta = get_metadata h L; R_meta = get_metadata h R in
      if 16 < length L_meta \<or> 16 < length R_meta then Inl BufferOverrun
      else
        let Y_1 = Bits_value (unat (y L)) (k_bits + kExtraBits c);
            L_c = Bits_bytes L_meta (length L_meta) (length L_meta * 8);
            R_c = Bits_bytes R_meta (length R_meta) (length R_meta * 8);
            input = (if table_index < 4 then Bits_plus Y_1 (Bits_plus L_c R_c)
                     else Bits_plus (Bits_plus Y_1 L_c) R_c)
        in if 64 < cdiv (GetSize input) 8 then Inl BufferOverrun else Inr input)"

text \<open>
  The metadata \<^verbatim>\<open>C\<close> of the new entry, from the inputs and the 32 bytes of the hash.
  \<^verbatim>\<open>len\<close>, \<^verbatim>\<open>start_byte\<close>, \<^verbatim>\<open>end_bit\<close> and \<^verbatim>\<open>end_byte\<close> are \<^verbatim>\<open>uint8_t\<close>.  From
  table index 7 on \<^verbatim>\<open>C\<close> keeps its initial value, the empty bit string.
\<close>

definition evaluate_C ::
    "params \<Rightarrow> 'a entry_y_scheme helpers \<Rightarrow> int \<Rightarrow> 'a entry_y_scheme \<Rightarrow> 'a entry_y_scheme
       \<Rightarrow> 8 word list \<Rightarrow> fault + Bits" where
  "evaluate_C c h table_index L R hash_bytes =
     (let L_meta = get_metadata h L; R_meta = get_metadata h R;
          L_c = Bits_bytes L_meta (length L_meta) (length L_meta * 8);
          R_c = Bits_bytes R_meta (length R_meta) (length R_meta * 8)
      in
      if table_index < 4 then Inr (Bits_plus L_c R_c)
      else if table_index < 7 then
        (if length (kVectorLens c) \<le> nat (table_index + 1) then Inl IndexOutOfRange
         else
           let len = (kVectorLens c ! nat (table_index + 1)) mod 256;
               start_byte = ((k_bits + kExtraBits c) div 8) mod 256;
               end_bit = (k_bits + kExtraBits c + k_bits * len) mod 256;
               end_byte = cdiv end_bit 8 mod 256
           in
           if end_byte < start_byte \<or> 32 < end_byte then Inl BufferOverrun
           else if end_bit < start_byte * 8 \<or> end_bit - start_byte * 8 < (k_bits + kExtraBits c) mod 8
           then Inl IndexOutOfRange
           else
             Inr (Slice (Bits_bytes (drop start_byte hash_bytes) (end_byte - start_byte)
                            ((end_byte - start_byte) * 8))
                        ((k_bits + kExtraBits c) mod 8) (end_bit - start_byte * 8)))
      else Inr [])"

text \<open>
  \<^verbatim>\<open>evaluate\<close>.  \<^verbatim>\<open>c_size\<close> is \<^verbatim>\<open>sizeof(entry.c)\<close>, given by the entry type, and
  \<^verbatim>\<open>C_bytes\<close> is the content of the 16-byte buffer of that name before \<^verbatim>\<open>C.ToBytes\<close>
  writes to it; it is not initialised.
\<close>

definition evaluate ::
    "params \<Rightarrow> 'a entry_y_scheme helpers \<Rightarrow> nat \<Rightarrow> 8 word list \<Rightarrow> int
       \<Rightarrow> 'a entry_y_scheme \<Rightarrow> 'a entry_y_scheme \<Rightarrow> fault + entry_c" where
  "evaluate c h c_size C_bytes table_index L R =
     (case evaluate_input c h table_index L R of
        Inl e \<Rightarrow> Inl e
      | Inr input \<Rightarrow>
          let hash_bytes = take 32 (blake3 h (take (cdiv (GetSize input) 8) (ToBytes input))) in
          if 64 < k_bits + kExtraBits c then Inl IntegerOverflow
          else
            (case evaluate_C c h table_index L R hash_bytes of
               Inl e \<Rightarrow> Inl e
             | Inr C \<Rightarrow>
                 if 16 < cdiv (GetSize C) 8 \<or> 16 < c_size then Inl BufferOverrun
                 else Inr \<lparr> y = drop_bit (64 - (k_bits + kExtraBits c)) (EightBytesToInt h hash_bytes),
                            c_arr = take c_size (ToBytes C @ drop (length (ToBytes C)) C_bytes) \<rparr>))"

text \<open>
  Helpers for concrete runs: a hash that returns the bytes 0 to 31 whatever its input,
  the big-endian integer of eight bytes, and entries whose metadata is one byte, the low
  byte of \<open>y\<close>.
\<close>

definition h0 :: "entry_y helpers" where
  "h0 = \<lparr> blake3 = (\<lambda>bs. map of_nat [0..<32]),
          EightBytesToInt = (\<lambda>bs. horner_sum ucast 256 (rev (take 8 bs))),
          get_metadata = (\<lambda>e. [ucast (y e)]) \<rparr>"


section \<open>Properties of the Table-1 generator\<close>

lemma take4_drop:
  assumes "offs + 4 \<le> length buf"
  shows "take 4 (drop offs buf) = [buf ! offs, buf ! (offs + 1), buf ! (offs + 2), buf ! (offs + 3)]"
proof (rule nth_equalityI)
  show "length (take 4 (drop offs buf))
        = length [buf ! offs, buf ! (offs + 1), buf ! (offs + 2), buf ! (offs + 3)]"
    using assms by simp
next
  fix i assume "i < length (take 4 (drop offs buf))"
  hence "i < 4" by simp
  hence "i = 0 \<or> i = 1 \<or> i = 2 \<or> i = 3" by arith
  thus "take 4 (drop offs buf) ! i
        = [buf ! offs, buf ! (offs + 1), buf ! (offs + 2), buf ! (offs + 3)] ! i"
    using assms by (auto simp: numeral_2_eq_2 numeral_3_eq_3)
qed

lemma byte_bound: "unat (b :: 8 word) < 256"
  using unsigned_less [of b, where ?'a = nat] by simp

text \<open>On a little-endian machine the \<^verbatim>\<open>memcpy\<close> reads a little-endian 32-bit word.\<close>

lemma memcpy_y_le32:
  assumes "offs + 4 \<le> length buf"
  shows "memcpy_y buf offs = ucast (le32 buf offs)"
proof -
  let ?n = "unat (buf ! offs) + 256 * unat (buf ! (offs + 1)) + 65536 * unat (buf ! (offs + 2))
             + 16777216 * unat (buf ! (offs + 3))"
  have b: "?n < 2 ^ 32"
    using byte_bound [of "buf ! offs"] byte_bound [of "buf ! (offs + 1)"]
      byte_bound [of "buf ! (offs + 2)"] byte_bound [of "buf ! (offs + 3)"] by simp
  have "memcpy_y buf offs = of_nat ?n"
    by (simp add: memcpy_y_def take4_drop [OF assms] algebra_simps)
  moreover have "ucast (le32 buf offs) = (of_nat ?n :: 64 word)"
  proof -
    have "unat (of_nat ?n :: 32 word) = ?n" using b by (simp only: unat_of_nat) simp
    hence "unat (ucast (of_nat ?n :: 32 word) :: 64 word) = ?n"
      using b by (simp only: unsigned_ucast_eq) (simp add: take_bit_nat_eq_self)
    moreover have "unat (of_nat ?n :: 64 word) = ?n" using b by (simp only: unat_of_nat) simp
    ultimately show ?thesis unfolding le32_def by (simp only: word_unat_eq_iff)
  qed
  ultimately show ?thesis by simp
qed

text \<open>As long as \<open>x\<close> fits 32 bits, shifting the 64-bit \<open>x\<close> gives the top bits of the 32-bit \<open>x\<close>.\<close>

lemma x_part_32:
  assumes "unat xv < 2 ^ 32"
  shows "x_part c xv = ucast (drop_bit (32 - kExtraBits c) (ucast xv :: 32 word))"
proof (rule bit_eqI)
  fix n
  have hi: "j < 32" if "bit xv j" for j
  proof (rule ccontr)
    assume "\<not> j < 32"
    hence "unat xv < 2 ^ j"
      using assms power_increasing [of 32 j "2::nat"] by simp
    moreover have "bit (unat xv) j" using that by (simp add: bit_unsigned_iff)
    ultimately show False by (simp add: bit_iff_odd)
  qed
  show "bit (x_part c xv) n
        = bit (ucast (drop_bit (32 - kExtraBits c) (ucast xv :: 32 word)) :: 64 word) n"
    by (auto simp: x_part_def bit_drop_bit_eq bit_ucast_iff dest: hi bit_imp_le_length)
qed

lemma slot_unat:
  assumes "unat index < 2 ^ 28" "i < 16"
  shows "unat (index * 16 + of_nat i :: 64 word) = unat index * 16 + i"
proof -
  have "unat (index * 16) = unat index * 16"
    using assms(1) unat_mult_lem [of index 16] by simp
  moreover have "unat (of_nat i :: 64 word) = i" using assms(2) by (simp add: unat_of_nat)
  ultimately show ?thesis
    using assms unat_add_lem [of "index * 16" "of_nat i"] by simp
qed

lemma entry_1_of_x:
  assumes "unat index < 2 ^ 28" "i < 16"
  shows "unat (x (entry_1_of c buf index i)) = unat index * 16 + i"
proof -
  have "unat (index * 16 + of_nat i) = unat index * 16 + i" using assms by (rule slot_unat)
  moreover have "unat index * 16 + i < 2 ^ 32" using assms by simp
  ultimately show ?thesis
    by (simp add: entry_1_of_def Let_def unsigned_ucast_eq take_bit_nat_eq_self)
qed

text \<open>
  C4, as the code has it: for every plot id, every block index below \<open>2^28\<close> and every slot
  \<open>i < 16\<close>, entry \<open>i\<close> of \<^verbatim>\<open>compute_entry_1_block\<close> has \<open>x = index * 16 + i\<close>, and its
  \<open>y\<close> is the little-endian 32-bit word at offset \<open>4 * i\<close> of the 64-byte keystream block
  at position \<open>index\<close>, shifted left by \<open>E\<close> bits and OR'd with the top \<open>E\<close> bits of the
  32-bit \<open>x\<close>.
\<close>

theorem compute_entry_1_block_entry:
  assumes "unat index < 2 ^ 28" and "i < 16"
    and "length (ks (F1Calculator plot_id) index 1) = 64"
  shows "entry_1_spec c (ks (F1Calculator plot_id) index 1) index i
           (compute_entry_1_block c ks (F1Calculator plot_id) index ! i)"
proof -
  let ?buf = "ks (F1Calculator plot_id) index 1"
  have e: "compute_entry_1_block c ks (F1Calculator plot_id) index ! i = entry_1_of c ?buf index i"
    using assms(2) unfolding compute_entry_1_block_def Let_def by (simp only: length_upt nth_map nth_upt) simp
  have xe: "unat (x (entry_1_of c ?buf index i)) = unat index * 16 + i"
    using assms(1,2) by (rule entry_1_of_x)
  have "i * 4 + 4 \<le> length ?buf" using assms(2,3) by simp
  hence w: "memcpy_y ?buf (i * 4) = ucast (le32 ?buf (i * 4))" by (rule memcpy_y_le32)
  have "unat (index * 16 + of_nat i) < 2 ^ 32"
    using slot_unat [OF assms(1,2)] assms(1,2) by simp
  hence "x_part c (index * 16 + of_nat i)
         = ucast (drop_bit (32 - kExtraBits c) (ucast (index * 16 + of_nat i) :: 32 word))"
    by (rule x_part_32)
  hence "y (entry_1_of c ?buf index i)
         = push_bit (kExtraBits c) (ucast (le32 ?buf (i * 4)))
             OR ucast (drop_bit (32 - kExtraBits c) (x (entry_1_of c ?buf index i)))"
    using w by (simp add: entry_1_of_def Let_def)
  thus ?thesis using xe unfolding entry_1_spec_def e by simp
qed

theorem compute_entry_1_block_entry_witness:
  "unat (5 :: 64 word) < 2 ^ 28 \<and> (3 :: nat) < 16
   \<and> length (count_ks (F1Calculator (replicate 32 7)) 5 1) = 64
   \<and> entry_1_spec chia (count_ks (F1Calculator (replicate 32 7)) 5 1) 5 3
        (compute_entry_1_block chia count_ks (F1Calculator (replicate 32 7)) 5 ! 3)
   \<and> compute_entry_1_block chia count_ks (F1Calculator (replicate 32 7)) 5 ! 3
       = \<lparr> y = 0x3C3834300, x = 83 \<rparr>"
proof -
  have l: "length (count_ks (F1Calculator (replicate 32 7)) 5 1) = 64"
    by (simp add: count_ks_def)
  have "entry_1_spec chia (count_ks (F1Calculator (replicate 32 7)) 5 1) 5 3
        (compute_entry_1_block chia count_ks (F1Calculator (replicate 32 7)) 5 ! 3)"
    using compute_entry_1_block_entry [of 5 3 count_ks "replicate 32 7" chia] l by simp
  moreover have "compute_entry_1_block chia count_ks (F1Calculator (replicate 32 7)) 5 ! 3
       = \<lparr> y = 0x3C3834300, x = 83 \<rparr>"
    by (simp add: compute_entry_1_block_def entry_1_of_def memcpy_y_def take4_drop x_part_def
        count_ks_def chia_def Let_def)
  ultimately show ?thesis using l by simp
qed

text \<open>
  The claim as written, for every block index, fails at the first index whose \<open>x\<close> does
  not fit 32 bits: at \<open>index = 2^28\<close> the stored \<open>x\<close> is 0, not \<open>2^32\<close>, and bit 32 of
  the 64-bit \<open>x\<close> lands in \<open>y\<close>.
\<close>

theorem compute_entry_1_block_entry_counterexample:
  "\<not> entry_1_spec chia (zero_ks (F1Calculator (replicate 32 0)) (2 ^ 28) 1) (2 ^ 28) 0
       (compute_entry_1_block chia zero_ks (F1Calculator (replicate 32 0)) (2 ^ 28) ! 0)"
  by (simp add: entry_1_spec_def compute_entry_1_block_def entry_1_of_def memcpy_y_def x_part_def
      zero_ks_def chia_def Let_def le32_def)

lemma of_nat_lt16_bit: "i < 16 \<Longrightarrow> 4 \<le> j \<Longrightarrow> \<not> bit (of_nat i :: 64 word) j"
proof -
  assume a: "i < 16" "4 \<le> j"
  have "(2::nat) ^ 4 \<le> 2 ^ j" using a(2) by (intro power_increasing) simp_all
  hence "i < 2 ^ j" using a(1) by simp
  hence "\<not> bit i j" by (simp add: bit_iff_odd)
  thus ?thesis by (simp add: bit_of_nat_iff)
qed

lemma slot_add_or:
  "i < 16 \<Longrightarrow> (index :: 64 word) * 16 + of_nat i = push_bit 4 index OR of_nat i"
proof -
  assume a: "i < 16"
  have "push_bit 4 index + of_nat i = push_bit 4 index OR (of_nat i :: 64 word)"
  proof (rule disjunctive_add)
    fix n show "\<not> bit (push_bit 4 index) n \<or> \<not> bit (of_nat i :: 64 word) n"
      using of_nat_lt16_bit [OF a, of n] by (cases "4 \<le> n") (auto simp: bit_push_bit_iff)
  qed
  thus ?thesis by (simp add: push_bit_eq_mult mult.commute)
qed

lemma x_part_slot:
  assumes e: "kExtraBits c \<le> 28" and a: "i < 16"
  shows "x_part c (index * 16 + of_nat i) = x_part c (index * 16)"
proof -
  have "drop_bit (32 - kExtraBits c) (push_bit 4 index OR of_nat i)
        = drop_bit (32 - kExtraBits c) (push_bit 4 index)"
  proof (rule bit_eqI)
    fix n
    have "4 \<le> 32 - kExtraBits c + n" using e by simp
    from of_nat_lt16_bit [OF a this]
    show "bit (drop_bit (32 - kExtraBits c) (push_bit 4 index OR word_of_nat i)) n
          = bit (drop_bit (32 - kExtraBits c) (push_bit 4 index)) n"
      by (simp add: bit_drop_bit_eq bit_or_iff)
  qed
  thus ?thesis unfolding x_part_def using slot_add_or [OF a, of index]
    by (simp add: push_bit_eq_mult mult.commute)
qed

text \<open>
  C8, as the code has it: what \<open>x\<close> itself contributes to \<open>y\<close> is \<^verbatim>\<open>x >> (32 - kExtraBits)\<close>,
  its top bits.  With at most 28 extra bits this is the same value for all 16 slots of a
  keystream block, so the \<open>y\<close> of slot \<open>i\<close> is the keystream word of the slot, shifted,
  OR'd with a value that the low four bits of \<open>x\<close> do not influence: the low bits of \<open>x\<close>
  only select the keystream word.
\<close>

theorem x_part_same_in_block:
  assumes "kExtraBits c \<le> 28" and "i < 16" and "j < 16"
  shows "x_part c (index * 16 + of_nat i) = x_part c (index * 16 + of_nat j)
         \<and> y (compute_entry_1_block c ks key index ! i)
             = push_bit (kExtraBits c) (memcpy_y (ks key index 1) (i * 4)) OR x_part c (index * 16)"
proof -
  have "compute_entry_1_block c ks key index ! i = entry_1_of c (ks key index 1) index i"
    using assms(2) unfolding compute_entry_1_block_def Let_def
    by (simp only: length_upt nth_map nth_upt) simp
  thus ?thesis
    using x_part_slot [OF assms(1,2), of index] x_part_slot [OF assms(1,3), of index]
    by (simp add: entry_1_of_def Let_def)
qed

theorem x_part_same_in_block_witness:
  "kExtraBits chia \<le> 28 \<and> (3 :: nat) < 16 \<and> (12 :: nat) < 16
   \<and> x_part chia (2 ^ 27 * 16 + of_nat 3) = x_part chia (2 ^ 27 * 16 + of_nat 12)
   \<and> y (compute_entry_1_block chia count_ks [] (2 ^ 27) ! 3)
       = push_bit (kExtraBits chia) (memcpy_y (count_ks [] (2 ^ 27) 1) (3 * 4))
           OR x_part chia (2 ^ 27 * 16)"
proof -
  have e: "kExtraBits chia \<le> 28" by (simp add: chia_def)
  show ?thesis using x_part_same_in_block [OF e, of 3 12 "2 ^ 27" count_ks "[]"] e by simp
qed

text \<open>
  The claim as written asks for two slots of one block whose \<open>x\<close> contributes differently
  to \<open>y\<close>.  In the block at index \<open>2^27\<close> all sixteen slots contribute the same value 32.
\<close>

theorem x_part_block_counterexample:
  "map (\<lambda>i. x_part chia (2 ^ 27 * 16 + of_nat i)) [0, 1, 2, 3, 4, 5, 6, 7, 8, 9, 10, 11, 12, 13, 14, 15]
   = [32, 32, 32, 32, 32, 32, 32, 32, 32, 32, 32, 32, 32, 32, 32, 32]"
  by (simp add: x_part_def chia_def)

subsection \<open>The Table-1 drive\<close>

lemma concat_blocks:
  "concat (map (\<lambda>b. map (\<lambda>i. b * n + i) [0..<n]) [0..<m]) = [0..<m * n]"
proof (induction m)
  case 0 show ?case by simp
next
  case (Suc m)
  have "map (\<lambda>i. m * n + i) [0..<n] = [m * n..<m * n + n]"
    using map_add_upt [of "m * n" n] by (simp add: add.commute)
  moreover have "[0..<m * n + n] = [0..<m * n] @ [m * n..<m * n + n]"
    using upt_add_eq_append [of 0 "m * n" n] by simp
  ultimately show ?case using Suc by (simp add: add.commute)
qed

lemma concat_blocks_shift:
  "concat (map (\<lambda>b. map (\<lambda>i. (k * m + b) * n + i) [0..<n]) [0..<m])
   = map (\<lambda>j. k * (m * n) + j) [0..<m * n]"
proof -
  have "map (\<lambda>j. k * (m * n) + j) (concat (map (\<lambda>b. map (\<lambda>i. b * n + i) [0..<n]) [0..<m]))
        = concat (map (\<lambda>b. map (\<lambda>i. (k * m + b) * n + i) [0..<n]) [0..<m])"
    by (simp add: map_concat comp_def algebra_simps)
  thus ?thesis by (simp only: concat_blocks)
qed

lemma block_xs:
  assumes "unat index < 2 ^ 28"
  shows "map (\<lambda>e. unat (x e)) (compute_entry_1_block c ks key index)
         = map (\<lambda>i. unat index * 16 + i) [0..<16]"
  unfolding compute_entry_1_block_def Let_def
  by (simp only: map_map comp_def) (rule map_cong, simp_all add: entry_1_of_x [OF assms])

lemma task_xs:
  assumes "k < 2 ^ 28 div M div 4"
  shows "map (\<lambda>e. unat (x e)) (compute_f1_task c ks plot_id (of_nat k))
         = map (\<lambda>j. k * (M * 16) + j) [0..<M * 16]"
proof -
  have k: "k < 16384" using assms by (simp add: M_def)
  have idx: "unat (of_nat k * of_nat M + of_nat i :: 64 word) = k * M + i" if "i < M" for i
  proof -
    have "k * M + i < 2 ^ 64" using k that by (simp add: M_def)
    moreover have "(of_nat k * of_nat M + of_nat i :: 64 word) = of_nat (k * M + i)" by simp
    ultimately show ?thesis by (simp only: unat_of_nat) simp
  qed
  have "map (\<lambda>e. unat (x e))
          (compute_entry_1_block c ks (F1Calculator plot_id) (of_nat k * of_nat M + of_nat i))
        = map (\<lambda>s. (k * M + i) * 16 + s) [0..<16]" if "i < M" for i
  proof -
    have "unat (of_nat k * of_nat M + of_nat i :: 64 word) < 2 ^ 28"
      using idx [OF that] k that by (simp add: M_def)
    from block_xs [OF this] show ?thesis by (simp only: idx [OF that])
  qed
  hence "map (\<lambda>e. unat (x e)) (compute_f1_task c ks plot_id (of_nat k))
        = concat (map (\<lambda>i. map (\<lambda>s. (k * M + i) * 16 + s) [0..<16]) [0..<M])"
    unfolding compute_f1_task_def
    by (simp only: map_concat map_map comp_def)
       (rule arg_cong [where f = concat], rule map_cong, simp_all)
  thus ?thesis by (simp only: concat_blocks_shift)
qed

text \<open>
  C6, evaluated on the code: the chunks that \<^verbatim>\<open>compute_f1\<close> hands to its output hold, in
  the order of submission, the entries with \<open>x = 0, 1, \<dots>, 2^30 - 1\<close>, each once.  The
  loop bound \<^verbatim>\<open>(1 << 28) / M / 4\<close> (marked \<^verbatim>\<open>TODO: remove div\<close> in the source) stops at a
  quarter of the address space \<open>[0, 2^32)\<close> of \<open>K = 32\<close>; no entry with \<open>x \<ge> 2^30\<close> is
  generated.
\<close>

theorem compute_f1_xs:
  "map (\<lambda>e. unat (x e)) (concat (compute_f1 c ks plot_id)) = [0..<2 ^ 30]"
proof -
  have "map (\<lambda>e. unat (x e)) (concat (compute_f1 c ks plot_id))
        = concat (map (\<lambda>k. map (\<lambda>j. k * (M * 16) + j) [0..<M * 16]) [0..<2 ^ 28 div M div 4])"
    unfolding compute_f1_def
    by (simp only: map_concat map_map comp_def)
       (rule arg_cong [where f = concat], rule map_cong, simp_all add: task_xs)
  also have "\<dots> = [0..<(2 ^ 28 div M div 4) * (M * 16)]" by (rule concat_blocks)
  also have "(2 ^ 28 div M div 4) * (M * 16) = (2 ^ 30 :: nat)" by (simp add: M_def)
  finally show ?thesis .
qed

section \<open>Properties of the slicing stage\<close>

lemma fold_err_append:
  "fold_err f (xs @ ys) s = (case fold_err f xs s of Inl e \<Rightarrow> Inl e | Inr s' \<Rightarrow> fold_err f ys s')"
  by (induction xs arbitrary: s) (auto split: sum.splits)


lemma params_ok_kBC: "params_ok c \<Longrightarrow> 0 < kBC c \<and> kBC c < 65536"
  by (simp add: params_ok_def)

lemma kBC_word: "params_ok c \<Longrightarrow> unat (of_nat (kBC c) :: 64 word) = kBC c"
proof -
  assume "params_ok c"
  hence "kBC c < 65536" by (simp add: params_ok_def)
  hence "kBC c < 2 ^ 64" by simp
  thus ?thesis by (simp only: unat_of_nat) simp
qed

lemma index_word: "params_ok c \<Longrightarrow> unat (y e div of_nat (kBC c)) = bucket_index c e"
  by (simp add: unat_div kBC_word bucket_index_def)

lemma slice_entry_error:
  "params_ok c \<Longrightarrow> (slice_entry c e (s, out) = Inl (LogicError ''input not sorted''))
      = (bucket_index c e < unat (fst (L_index s)))"
  by (auto simp: slice_entry_def Let_def slice_rotate_def word_less_nat_alt index_word split: sum.splits option.splits prod.splits)


lemma slice_entry_sorted_step:
  assumes "params_ok c" "unat (fst (L_index s)) \<le> bucket_index c e" "cur_ok s \<or> bucket_index c e = unat (fst (L_index s))"
  shows "\<exists>s' out'. slice_entry c e (s, out) = Inr (s', out') \<and> cur_ok s' \<and> unat (fst (L_index s')) = bucket_index c e"
  using assms
  by (auto simp: slice_entry_def Let_def slice_rotate_def slice_push_def cur_ok_def word_less_nat_alt index_word
      split: sum.splits option.splits prod.splits)

lemma params_ok_chia: "params_ok chia"
  by (simp add: params_ok_def chia_def)

subsection \<open>The outcome of a whole run\<close>

lemma slice_entry_null:
  assumes "params_ok c" "\<not> cur_ok s" "unat (fst (L_index s)) < bucket_index c e"
  shows "slice_entry c e (s, out) = Inl NullDereference"
  using assms
  by (auto simp: slice_entry_def Let_def slice_rotate_def cur_ok_def word_less_nat_alt index_word
      split: sum.splits option.splits prod.splits)

lemma state_of_simps [simp]:
  "state_of (Inl f) = Inl f" "state_of (Inr (s, out)) = Inr s"
  by (simp_all add: state_of_def)

lemma state_of_Inl: "state_of r = Inl f \<longleftrightarrow> r = Inl f"
  by (cases r) (auto simp: state_of_def)

lemma state_of_Inr: "state_of r = Inr s \<longleftrightarrow> (\<exists>out. r = Inr (s, out))"
  by (cases r) (auto simp: state_of_def)

lemma slice_entry_out:
  "state_of (slice_entry c e (s, out)) = state_of (slice_entry c e (s, out'))"
  by (auto simp: slice_entry_def Let_def slice_rotate_def split: option.splits)

lemma fold_entries_out:
  "state_of (fold_err (slice_entry c) es (s, out))
   = state_of (fold_err (slice_entry c) es (s, out'))"
proof (induction es arbitrary: s out out')
  case Nil show ?case by simp
next
  case (Cons e es)
  show ?case
  proof (cases "slice_entry c e (s, out)")
    case (Inl f)
    hence "state_of (slice_entry c e (s, out')) = Inl f"
      using slice_entry_out [of c e s out' out] by simp
    hence "slice_entry c e (s, out') = Inl f" by (simp only: state_of_Inl)
    thus ?thesis using Inl by simp
  next
    case (Inr st)
    obtain s1 o1 where st: "st = (s1, o1)" by (cases st)
    have "state_of (slice_entry c e (s, out')) = Inr s1"
      using slice_entry_out [of c e s out' out] Inr st by simp
    then obtain o1' where "slice_entry c e (s, out') = Inr (s1, o1')"
      by (auto simp only: state_of_Inr)
    thus ?thesis using Inr st Cons.IH [of s1 o1 o1'] by simp
  qed
qed

lemma read_stream_Cons:
  "read_stream c (b # bs) (s, jobs)
   = (case fold_err (slice_entry c) b (s, []) of
        Inl f \<Rightarrow> Inl f
      | Inr v \<Rightarrow> read_stream c bs (fst v, jobs @ [snd v]))"
  by (simp add: read_stream_def read_block_def split: sum.splits prod.splits)

lemma read_stream_flat:
  "state_of (read_stream c blocks (s, jobs))
   = state_of (fold_err (slice_entry c) (concat blocks) (s, out))"
proof (induction blocks arbitrary: s jobs out)
  case Nil show ?case by (simp add: read_stream_def)
next
  case (Cons b bs)
  show ?case
  proof (cases "fold_err (slice_entry c) b (s, out)")
    case (Inl f)
    hence "state_of (fold_err (slice_entry c) b (s, [])) = Inl f"
      using fold_entries_out [of c b s "[]" out] by simp
    hence "fold_err (slice_entry c) b (s, []) = Inl f" by (simp only: state_of_Inl)
    thus ?thesis using Inl by (simp add: read_stream_Cons fold_err_append)
  next
    case (Inr st)
    obtain s1 o1 where st: "st = (s1, o1)" by (cases st)
    have "state_of (fold_err (slice_entry c) b (s, [])) = Inr s1"
      using fold_entries_out [of c b s "[]" out] Inr st by simp
    then obtain o1' where b: "fold_err (slice_entry c) b (s, []) = Inr (s1, o1')"
      by (auto simp only: state_of_Inr)
    have "state_of (read_stream c bs (s1, jobs @ [o1']))
          = state_of (fold_err (slice_entry c) (concat bs) (s1, o1))"
      by (rule Cons.IH)
    thus ?thesis using Inr st b by (simp add: read_stream_Cons fold_err_append)
  qed
qed

lemma fault_of_state_of: "fault_of (state_of r) = fault_of r"
  by (cases r) (simp_all add: fault_of_def state_of_def)

lemma entries_outcome:
  assumes ok: "params_ok c"
  shows "cur_ok s \<Longrightarrow>
    fault_of (fold_err (slice_entry c) es (s, out))
    = (if sorted (unat (fst (L_index s)) # map (bucket_index c) es) then None
       else Some (LogicError ''input not sorted''))"
proof (induction es arbitrary: s out)
  case Nil show ?case by (simp add: fault_of_def)
next
  case (Cons e es)
  show ?case
  proof (cases "bucket_index c e < unat (fst (L_index s))")
    case True
    hence "slice_entry c e (s, out) = Inl (LogicError ''input not sorted'')"
      using slice_entry_error [OF ok, of e s out] by simp
    thus ?thesis using True by (simp add: fault_of_def)
  next
    case False
    hence le: "unat (fst (L_index s)) \<le> bucket_index c e" by simp
    from slice_entry_sorted_step [OF ok le, of out] Cons.prems
    obtain s1 out1 where 1: "slice_entry c e (s, out) = Inr (s1, out1)" "cur_ok s1"
      "unat (fst (L_index s1)) = bucket_index c e"
      by blast
    have "fault_of (fold_err (slice_entry c) es (s1, out1))
          = (if sorted (bucket_index c e # map (bucket_index c) es) then None
             else Some (LogicError ''input not sorted''))"
      using Cons.IH [OF 1(2), of out1] 1(3) by simp
    moreover have "sorted (unat (fst (L_index s)) # map (bucket_index c) (e # es))
                   = sorted (bucket_index c e # map (bucket_index c) es)"
      using le by (simp only: list.map sorted2 simp_thms)
    moreover have "fault_of (fold_err (slice_entry c) (e # es) (s, out))
                   = fault_of (fold_err (slice_entry c) es (s1, out1))"
      using 1(1) by simp
    ultimately show ?thesis by (simp only:)
  qed
qed

text \<open>
  C5, evaluated on the code.  At each entry the slicing stage raises ``input not sorted''
  exactly when the bucket index \<open>floor (y / BC)\<close> of the entry is less than the bucket index
  of the current slot.  A whole run over the blocks of a stream, started as
  \<^verbatim>\<open>compute_matches\<close> starts it, ends as follows: an empty stream is processed; a stream
  whose first entry is not in bucket 0 ends in the dereference of the null pointer
  \<^verbatim>\<open>L_bucket[0]\<close> (the source reads \<^verbatim>\<open>L_bucket[0]->size()\<close> before it tests the pointer),
  whether the stream is sorted or not; a stream that starts in bucket 0 is processed to the
  end when its bucket indices are non-decreasing and raises ``input not sorted'' when they
  are not.  So a sorted stream that starts above bucket 0 is not processed.
\<close>

theorem read_stream_outcome:
  fixes blocks :: "'a entry_y_scheme list list"
  assumes "params_ok c"
  shows "fault_of (read_stream c blocks (slicer_init, []))
           = (if concat blocks = [] then None
              else if 0 < bucket_index c (hd (concat blocks)) then Some NullDereference
              else if sorted (map (bucket_index c) (concat blocks)) then None
              else Some (LogicError ''input not sorted''))
         \<and> (slice_entry c e (s, out) = Inl (LogicError ''input not sorted''))
             = (bucket_index c e < unat (fst (L_index s)))"
proof
  let ?s = "slicer_init :: 'a entry_y_scheme slicer"
  have z: "unat (fst (L_index ?s)) = 0" and nc: "\<not> cur_ok ?s"
    by (simp_all add: slicer_init_def cur_ok_def)
  have fl: "fault_of (read_stream c blocks (?s, []))
            = fault_of (fold_err (slice_entry c) (concat blocks) (?s, []))"
    using read_stream_flat [of c blocks ?s "[]" "[]"]
      fault_of_state_of [of "read_stream c blocks (?s, [])"]
      fault_of_state_of [of "fold_err (slice_entry c) (concat blocks) (?s, [])"]
    by simp
  show "fault_of (read_stream c blocks (slicer_init, []))
           = (if concat blocks = [] then None
              else if 0 < bucket_index c (hd (concat blocks)) then Some NullDereference
              else if sorted (map (bucket_index c) (concat blocks)) then None
              else Some (LogicError ''input not sorted''))"
  proof (cases "concat blocks")
    case Nil
    hence "fold_err (slice_entry c) (concat blocks) (?s, []) = Inr (?s, [])"
      by (simp only: fold_err.simps)
    hence "fault_of (read_stream c blocks (?s, [])) = None" using fl by (simp add: fault_of_def)
    thus ?thesis using Nil by simp
  next
    case (Cons e1 es)
    show ?thesis
    proof (cases "0 < bucket_index c e1")
      case True
      hence "slice_entry c e1 (?s, []) = Inl NullDereference"
        using slice_entry_null [OF assms nc, of e1 "[]"] z by simp
      thus ?thesis using fl Cons True by (simp add: fault_of_def)
    next
      case False
      hence b0: "bucket_index c e1 = 0" by simp
      from slice_entry_sorted_step [OF assms, of ?s e1 "[]"] b0 z
      obtain s1 out1 where 1: "slice_entry c e1 (?s, []) = Inr (s1, out1)" "cur_ok s1"
        "unat (fst (L_index s1)) = bucket_index c e1"
        by auto
      have "fault_of (fold_err (slice_entry c) es (s1, out1))
            = (if sorted (bucket_index c e1 # map (bucket_index c) es) then None
               else Some (LogicError ''input not sorted''))"
        using entries_outcome [OF assms 1(2), of es out1] 1(3) by simp
      moreover have "fault_of (fold_err (slice_entry c) (e1 # es) (?s, []))
                     = fault_of (fold_err (slice_entry c) es (s1, out1))"
        using 1(1) by simp
      ultimately have "fault_of (read_stream c blocks (?s, []))
            = (if sorted (map (bucket_index c) (e1 # es)) then None
               else Some (LogicError ''input not sorted''))"
        using fl Cons by (simp only: list.map)
      thus ?thesis using Cons b0 by simp
    qed
  qed
next
  show "(slice_entry c e (s, out) = Inl (LogicError ''input not sorted''))
           = (bucket_index c e < unat (fst (L_index s)))"
    using assms by (rule slice_entry_error)
qed

theorem read_stream_outcome_witness:
  "params_ok chia
   \<and> fault_of (read_stream chia [[\<lparr>y = 15113\<rparr>, \<lparr>y = 15114\<rparr>]] (slicer_init, []))
       = Some NullDereference
   \<and> fault_of (read_stream chia [[\<lparr>y = 0\<rparr>, \<lparr>y = 30226\<rparr>], [\<lparr>y = 15113\<rparr>]] (slicer_init, []))
       = Some (LogicError ''input not sorted'')
   \<and> fault_of (read_stream chia [[\<lparr>y = 7\<rparr>, \<lparr>y = 15112\<rparr>], [\<lparr>y = 15113\<rparr>, \<lparr>y = 45339\<rparr>]]
                 (slicer_init, []))
       = None
   \<and> slice_entry chia \<lparr>y = 15112\<rparr> (slicer_init \<lparr>L_index := (1, 0), L_bucket := (Some [], None)\<rparr>, [])
       = Inl (LogicError ''input not sorted'')"
proof -
  have b: "bucket_index chia \<lparr>y = 15113\<rparr> = 1" "bucket_index chia \<lparr>y = 15114\<rparr> = 1"
    "bucket_index chia \<lparr>y = 0\<rparr> = 0" "bucket_index chia \<lparr>y = 30226\<rparr> = 2"
    "bucket_index chia \<lparr>y = 7\<rparr> = 0" "bucket_index chia \<lparr>y = 15112\<rparr> = 0"
    "bucket_index chia \<lparr>y = 45339\<rparr> = 3"
    by (simp_all add: bucket_index_def chia_def)
  have 1: "fault_of (read_stream chia [[\<lparr>y = 15113\<rparr>, \<lparr>y = 15114\<rparr>]] (slicer_init, []))
       = Some NullDereference"
    using read_stream_outcome [OF params_ok_chia, THEN conjunct1,
        of "[[\<lparr>y = 15113\<rparr>, \<lparr>y = 15114\<rparr>]]"]
    by (simp add: b)
  have 2: "fault_of (read_stream chia [[\<lparr>y = 0\<rparr>, \<lparr>y = 30226\<rparr>], [\<lparr>y = 15113\<rparr>]] (slicer_init, []))
       = Some (LogicError ''input not sorted'')"
    using read_stream_outcome [OF params_ok_chia, THEN conjunct1,
        of "[[\<lparr>y = 0\<rparr>, \<lparr>y = 30226\<rparr>], [\<lparr>y = 15113\<rparr>]]"]
    by (simp add: b)
  have 3: "fault_of (read_stream chia [[\<lparr>y = 7\<rparr>, \<lparr>y = 15112\<rparr>], [\<lparr>y = 15113\<rparr>, \<lparr>y = 45339\<rparr>]]
                 (slicer_init, []))
       = None"
    using read_stream_outcome [OF params_ok_chia, THEN conjunct1,
        of "[[\<lparr>y = 7\<rparr>, \<lparr>y = 15112\<rparr>], [\<lparr>y = 15113\<rparr>, \<lparr>y = 45339\<rparr>]]"]
    by (simp add: b)
  have 4: "slice_entry chia \<lparr>y = 15112\<rparr>
             (slicer_init \<lparr>L_index := (1, 0), L_bucket := (Some [], None)\<rparr>, [])
           = Inl (LogicError ''input not sorted'')"
    using read_stream_outcome [where c = chia and e = "\<lparr>y = 15112\<rparr>"
          and s = "slicer_init \<lparr>L_index := (1, 0), L_bucket := (Some [], None)\<rparr>" and out = "[]"
          and blocks = "[]", OF params_ok_chia, THEN conjunct2]
    by (simp add: b)
  show ?thesis using params_ok_chia 1 2 3 4 by simp
qed

section \<open>Properties of the bucket matcher\<close>

subsection \<open>load_tables\<close>

lemma load_m_upto:
  "fold (\<lambda>m T. T(parity := (T parity)(i := (T parity i)(m := target_yr c parity i m)))) [0..<n] T p' i' m'
   = (if p' = parity \<and> i' = i \<and> m' < n then target_yr c parity i m' else T p' i' m')"
  by (induction n arbitrary: p' i' m') (auto simp: less_Suc_eq)

lemma load_m_apply:
  "load_m c parity i T p' i' m'
   = (if p' = parity \<and> i' = i \<and> m' < kExtraBitsPow c then target_yr c parity i m' else T p' i' m')"
  unfolding load_m_def by (rule load_m_upto)

lemma load_i_upto:
  "fold (load_m c parity) [0..<n] T p' i' m'
   = (if p' = parity \<and> i' < n \<and> m' < kExtraBitsPow c then target_yr c parity i' m' else T p' i' m')"
  by (induction n arbitrary: p' i' m') (auto simp: less_Suc_eq load_m_apply)

lemma load_i_apply:
  "load_i c parity T p' i' m'
   = (if p' = parity \<and> i' < kBC c \<and> m' < kExtraBitsPow c then target_yr c parity i' m' else T p' i' m')"
  unfolding load_i_def by (rule load_i_upto)

lemma load_tables_apply:
  "load_tables c p i m
   = (if p < 2 \<and> i < kBC c \<and> m < kExtraBitsPow c then target_yr c p i m else 0)"
proof -
  have "[0..<2] = [0, Suc 0]" by (simp add: upt_rec)
  thus ?thesis unfolding load_tables_def by (auto simp: load_i_apply)
qed

lemma target_yr_less:
  assumes "params_ok c"
  shows "target_yr c p i m < kBC c"
    and "target_yr c p i m = ((i div kC c + m) mod kB c) * kC c + ((2 * m + p) * (2 * m + p) + i) mod kC c"
proof -
  let ?a = "(i div kC c + m) mod kB c" and ?b = "((2 * m + p) * (2 * m + p) + i) mod kC c"
  have B: "0 < kB c" and C: "0 < kC c" and BC: "kBC c = kB c * kC c" and lt: "kBC c < 65536"
    using assms by (simp_all add: params_ok_def)
  have "?a < kB c" "?b < kC c" using B C by simp_all
  hence 1: "?a * kC c + ?b < (?a + 1) * kC c" and "?a + 1 \<le> kB c" by simp_all
  hence "(?a + 1) * kC c \<le> kB c * kC c" by (intro mult_le_mono1)
  with 1 have "?a * kC c + ?b < kB c * kC c" by (rule less_le_trans)
  thus "target_yr c p i m < kBC c"
    "target_yr c p i m = ?a * kC c + ?b"
    using BC lt by (simp_all add: target_yr_def Let_def)
qed

subsection \<open>fold_err\<close>

lemma fold_err_blocks:
  assumes "length idx \<le> lim"
    and "\<And>a idx. a \<in> set xs \<Longrightarrow> length idx \<le> lim \<Longrightarrow>
           f a idx = (if length idx + length (blk a) \<le> lim then Inr (idx @ blk a) else Inl flt)"
  shows "fold_err f xs idx
         = (if length idx + length (concat (map blk xs)) \<le> lim
            then Inr (idx @ concat (map blk xs)) else Inl flt)"
  using assms
proof (induction xs arbitrary: idx)
  case Nil thus ?case by simp
next
  case (Cons a xs)
  have 1: "f a idx = (if length idx + length (blk a) \<le> lim then Inr (idx @ blk a) else Inl flt)"
    using Cons.prems by simp
  have 2: "fold_err f xs idx' = (if length idx' + length (concat (map blk xs)) \<le> lim
              then Inr (idx' @ concat (map blk xs)) else Inl flt)"
    if "length idx' \<le> lim" for idx'
    using Cons.IH [OF that] Cons.prems(2) by simp
  show ?case by (simp add: 1 2)
qed

lemma fold_err_idx_write:
  assumes "length idx \<le> idx_limit cap"
  shows "fold_err (\<lambda>j. idx_write cap l (g j)) xs idx
   = (if length idx + length xs \<le> idx_limit cap then Inr (idx @ map (\<lambda>j. (l, g j)) xs) else Inl (idx_fault cap))"
proof -
  have "fold_err (\<lambda>j. idx_write cap l (g j)) xs idx
     = (if length idx + length (concat (map (\<lambda>j. [(l, g j)]) xs)) \<le> idx_limit cap then Inr (idx @ concat (map (\<lambda>j. [(l, g j)]) xs)) else Inl (idx_fault cap))"
    using assms by (rule fold_err_blocks) (auto simp: idx_write_def idx_limit_def idx_fault_def)
  moreover have "concat (map (\<lambda>j. [(l, g j)]) xs) = map (\<lambda>j. (l, g j)) xs"
    by (induction xs) auto
  ultimately show ?thesis by (simp add: length_concat comp_def)
qed

subsection \<open>resetting the map\<close>

lemma reset_fold:
  assumes "\<forall>w\<in>set ws. unat w < kBC c"
  shows "fold_err (\<lambda>yl rm. if unat yl < kBC c
                               then Inr (rm (unat yl := (rm (unat yl)) \<lparr> r_count := 0 \<rparr>))
                               else Inl IndexOutOfRange) ws rm
         = Inr (\<lambda>r. if r \<in> unat ` set ws then (rm r) \<lparr> r_count := 0 \<rparr> else rm r)"
  using assms
proof (induction ws arbitrary: rm)
  case Nil show ?case by simp
next
  case (Cons w ws)
  have "(\<lambda>r. if r \<in> unat ` set ws then ((rm (unat w := (rm (unat w)) \<lparr> r_count := 0 \<rparr>)) r) \<lparr> r_count := 0 \<rparr>
              else (rm (unat w := (rm (unat w)) \<lparr> r_count := 0 \<rparr>)) r)
        = (\<lambda>r. if r \<in> unat ` set (w # ws) then (rm r) \<lparr> r_count := 0 \<rparr> else rm r)"
    by (rule ext) auto
  thus ?case using Cons by simp
qed

lemma rmap_reset_ok:
  assumes "FxMatcher_inv c m"
  shows "\<exists>m1. rmap_reset c m = Inr m1 \<and> rmap_clean m1 = [] \<and> (\<forall>r<kBC c. r_count (rmap m1 r) = 0)"
proof -
  have 1: "\<forall>w\<in>set (rmap_clean m). unat w < kBC c"
    and 2: "\<forall>r<kBC c. r_count (rmap m r) \<noteq> 0 \<longrightarrow> r \<in> unat ` set (rmap_clean m)"
    using assms by (auto simp: FxMatcher_inv_def)
  show ?thesis
    unfolding rmap_reset_def reset_fold [OF 1] using 2 by auto
qed

subsection \<open>filling the map\<close>

lemma cnt_Suc:
  "length (filter P [0..<Suc n]) = length (filter P [0..<n]) + (if P n then 1 else 0)"
  by simp

lemma cnt_zero: "length (filter P [0..<n]) = 0 \<longleftrightarrow> (\<forall>p<n. \<not> P p)"
  by (auto simp: filter_empty_conv)

lemma cnt_le: "length (filter P [0..<n]) \<le> n"
  using length_filter_le [of P "[0..<n]"] by simp

lemma word16_of_nat_0: "n < 65536 \<Longrightarrow> (of_nat n :: 16 word) = 0 \<longleftrightarrow> n = 0"
proof -
  assume "n < 65536"
  hence u: "unat (of_nat n :: 16 word) = n" by (simp only: unat_of_nat) simp
  show ?thesis
  proof
    assume "(of_nat n :: 16 word) = 0"
    hence "unat (of_nat n :: 16 word) = 0" by simp
    thus "n = 0" using u by simp
  next
    assume "n = 0" thus "(of_nat n :: 16 word) = 0" by simp
  qed
qed

lemma rmap_add_loop:
  fixes R :: "'a entry_y_scheme list"
  assumes inb: "\<forall>p<length R. unat (y (R ! p) - offset) < kBC c"
  shows "n \<le> length R \<Longrightarrow>
    \<exists>m2. fold_err (rmap_add c offset R) [0..<n] m1 = Inr m2
      \<and> rmap_clean m2 = rmap_clean m1 @ map (\<lambda>p. ucast (y (R ! p) - offset)) [0..<n]
      \<and> (\<forall>r. r_count (rmap m2 r)
               = r_count (rmap m1 r) + of_nat (length (filter (\<lambda>p. unat (y (R ! p) - offset) = r) [0..<n])))
      \<and> (\<forall>r. r_count (rmap m1 r) = 0
               \<and> 0 < length (filter (\<lambda>p. unat (y (R ! p) - offset) = r) [0..<n])
               \<and> length (filter (\<lambda>p. unat (y (R ! p) - offset) = r) [0..<n]) < 65536
             \<longrightarrow> r_pos (rmap m2 r) = of_nat (LEAST p. unat (y (R ! p) - offset) = r))"
proof (induction n)
  case 0 show ?case by simp
next
  case (Suc n)
  let ?res = "\<lambda>p. unat (y (R ! p) - offset)"
  let ?cnt = "\<lambda>n r. length (filter (\<lambda>p. ?res p = r) [0..<n])"
  from Suc obtain m2 where m2: "fold_err (rmap_add c offset R) [0..<n] m1 = Inr m2"
    and cl: "rmap_clean m2 = rmap_clean m1 @ map (\<lambda>p. ucast (y (R ! p) - offset)) [0..<n]"
    and ct: "\<And>r. r_count (rmap m2 r) = r_count (rmap m1 r) + of_nat (?cnt n r)"
    and ps: "\<And>r. r_count (rmap m1 r) = 0 \<Longrightarrow> 0 < ?cnt n r \<Longrightarrow> ?cnt n r < 65536
               \<Longrightarrow> r_pos (rmap m2 r) = of_nat (LEAST p. ?res p = r)"
    by auto
  have n: "n < length R" using Suc.prems by simp
  hence rn: "?res n < kBC c" using inb by simp
  define it where "it = rmap m2 (?res n)"
  define it1 where "it1 = (if r_count it = 0 then it \<lparr> r_pos := of_nat n \<rparr> else it)"
  define m3 where "m3 = \<lparr> rmap = (rmap m2) (?res n := it1 \<lparr> r_count := r_count it1 + 1 \<rparr>),
                          rmap_clean = rmap_clean m2 @ [ucast (y (R ! n) - offset)] \<rparr>"
  have add: "rmap_add c offset R n m2 = Inr m3"
    using rn by (simp add: rmap_add_def Let_def m3_def it1_def it_def)
  have f: "fold_err (rmap_add c offset R) [0..<Suc n] m1 = Inr m3"
    by (simp add: fold_err_append m2 add)
  have c3: "rmap_clean m3 = rmap_clean m1 @ map (\<lambda>p. ucast (y (R ! p) - offset)) [0..<Suc n]"
    by (simp add: m3_def cl)
  have cnt3: "r_count (rmap m3 r) = r_count (rmap m1 r) + of_nat (?cnt (Suc n) r)" for r
    by (simp add: m3_def it1_def it_def ct)
  have pos3: "r_pos (rmap m3 r) = of_nat (LEAST p. ?res p = r)"
    if z: "r_count (rmap m1 r) = 0" and p: "0 < ?cnt (Suc n) r" and b: "?cnt (Suc n) r < 65536" for r
  proof (cases "?res n = r")
    case False
    thus ?thesis using ps [of r] z p b by (simp add: m3_def)
  next
    case True
    have b': "?cnt n r < 65536" using b True by simp
    have cw: "r_count it = of_nat (?cnt n r)" using ct [of r] z True by (simp add: it_def)
    show ?thesis
    proof (cases "?cnt n r = 0")
      case True': True
      hence "\<forall>p<n. ?res p \<noteq> r" by (simp only: cnt_zero) 
      hence "(LEAST p. ?res p = r) = n"
        using True by (intro Least_equality) (auto simp: not_less [symmetric])
      moreover have "r_count it = 0" using cw True' by simp
      ultimately show ?thesis using True by (simp add: m3_def it1_def)
    next
      case False
      hence "r_count it \<noteq> 0" using cw word16_of_nat_0 [OF b'] by simp
      hence "r_pos (rmap m3 r) = r_pos (rmap m2 r)" using True by (simp add: m3_def it1_def it_def)
      thus ?thesis using ps [of r] z False b' by simp
    qed
  qed
  show ?case using f c3 cnt3 pos3 by blast
qed

lemma cnt_nth: "length (filter (\<lambda>p. P (xs ! p)) [0..<length xs]) = length (filter P xs)"
proof -
  have "filter P (map (nth xs) [0..<length xs]) = map (nth xs) (filter (P \<circ> nth xs) [0..<length xs])"
    by (rule filter_map)
  thus ?thesis by (metis (no_types, lifting) comp_apply filter_cong length_map map_nth)
qed

subsection \<open>word arithmetic of the residues\<close>

lemma offset_unat:
  assumes "params_ok c"
  shows "unat ((y e div of_nat (kBC c)) * of_nat (kBC c)) = bucket_index c e * kBC c"
proof -
  have "bucket_index c e * kBC c \<le> unat (y e)" by (simp add: bucket_index_def)
  also have "\<dots> < 2 ^ 64" using unsigned_less [of "y e", where ?'a = nat] by simp
  finally have "unat (y e div of_nat (kBC c)) * unat (of_nat (kBC c) :: 64 word) < 2 ^ LENGTH(64)"
    using assms by (simp add: index_word kBC_word)
  thus ?thesis using assms by (simp only: unat_mult_lem [THEN iffD1] index_word kBC_word)
qed

lemma residue_unat:
  assumes "unat offs = bucket_index c e * kBC c"
  shows "unat (y e - offs) = unat (y e) mod kBC c"
proof -
  have "unat offs \<le> unat (y e)" using assms by (simp add: bucket_index_def)
  hence "offs \<le> y e" by (simp add: word_le_nat_alt)
  hence "unat (y e - offs) = unat (y e) - unat offs" by (rule unat_sub)
  thus ?thesis using assms by (simp add: bucket_index_def modulo_nat_def)
qed

lemma offset_y_unat:
  fixes offs :: "64 word"
  assumes "params_ok c" "unat offs = Suc b * kBC c"
  shows "unat (offs - of_nat (kBC c)) = b * kBC c"
proof -
  have "unat (of_nat (kBC c) :: 64 word) \<le> unat offs" using assms by (simp add: kBC_word)
  hence "(of_nat (kBC c) :: 64 word) \<le> offs" by (simp add: word_le_nat_alt)
  hence "unat (offs - of_nat (kBC c)) = unat offs - unat (of_nat (kBC c) :: 64 word)" by (rule unat_sub)
  thus ?thesis using assms by (simp add: kBC_word)
qed

lemma parity_unat:
  assumes "params_ok c"
  shows "unat ((y e div of_nat (kBC c)) mod 2) = bucket_index c e mod 2"
  using assms by (simp add: unat_mod index_word)

subsection \<open>the loops that write the pairs\<close>

lemma match_targets_eq:
  assumes "r < kBC c" and "\<forall>i<kExtraBitsPow c. T p r i < kBC c" and "length idx \<le> idx_limit cap"
  shows "match_targets c T cap m p r pos_L idx
         = (if length idx + length (target_hits c T m p r pos_L) \<le> idx_limit cap
            then Inr (idx @ target_hits c T m p r pos_L) else Inl (idx_fault cap))"
  unfolding match_targets_def target_hits_def
  using assms(3)
proof (rule fold_err_blocks)
  fix i and idx' :: idx_buf
  assume i: "i \<in> set [0..<kExtraBitsPow c]" and l: "length idx' \<le> idx_limit cap"
  hence t: "T p r i < kBC c" using assms(2) by simp
  show "(if r < kBC c then
           let r_target = T p r i in
           if r_target < kBC c then
             fold_err (\<lambda>j. idx_write cap (of_nat pos_L)
                               (of_nat (unat (r_pos (rmap m r_target)) + j)))
               [0..<unat (r_count (rmap m r_target))] idx'
           else Inl IndexOutOfRange
         else Inl IndexOutOfRange)
        = (if length idx' + length (map (\<lambda>j. (of_nat pos_L :: 16 word, of_nat (unat (r_pos (rmap m (T p r i))) + j) :: 16 word))
                         [0..<unat (r_count (rmap m (T p r i)))]) \<le> idx_limit cap
           then Inr (idx' @ map (\<lambda>j. (of_nat pos_L, of_nat (unat (r_pos (rmap m (T p r i))) + j)))
                         [0..<unat (r_count (rmap m (T p r i)))])
           else Inl (idx_fault cap))"
    using assms(1) t by (simp add: Let_def fold_err_idx_write [OF l])
qed

lemma bucket_loop_eq:
  fixes L :: "'a entry_y_scheme list"
  assumes "\<forall>pos_L<length L. unat (y (L ! pos_L) - offset_y) = unat (y (L ! pos_L)) mod kBC c"
    and "0 < kBC c"
    and "\<forall>r<kBC c. \<forall>i<kExtraBitsPow c. T p r i < kBC c"
  shows "fold_err (\<lambda>pos_L. match_targets c T cap m p (unat (y (L ! pos_L) - offset_y)) pos_L)
           [0..<length L] []
         = (if length (bucket_hits c T m p L) \<le> idx_limit cap then Inr (bucket_hits c T m p L)
            else Inl (idx_fault cap))"
proof -
  have "fold_err (\<lambda>pos_L. match_targets c T cap m p (unat (y (L ! pos_L) - offset_y)) pos_L)
           [0..<length L] []
        = (if length ([] :: idx_buf) + length (concat (map (\<lambda>pos_L. target_hits c T m p (unat (y (L ! pos_L)) mod kBC c) pos_L) [0..<length L])) \<le> idx_limit cap
           then Inr ([] @ concat (map (\<lambda>pos_L. target_hits c T m p (unat (y (L ! pos_L)) mod kBC c) pos_L) [0..<length L]))
           else Inl (idx_fault cap))"
  proof (rule fold_err_blocks)
    show "length ([] :: idx_buf) \<le> idx_limit cap" by simp
  next
    fix pos_L and idx :: idx_buf
    assume p: "pos_L \<in> set [0..<length L]" and l: "length idx \<le> idx_limit cap"
    hence r: "unat (y (L ! pos_L) - offset_y) = unat (y (L ! pos_L)) mod kBC c" using assms(1) by simp
    have rl: "unat (y (L ! pos_L)) mod kBC c < kBC c" using assms(2) by simp
    show "match_targets c T cap m p (unat (y (L ! pos_L) - offset_y)) pos_L idx
          = (if length idx + length (target_hits c T m p (unat (y (L ! pos_L)) mod kBC c) pos_L) \<le> idx_limit cap
             then Inr (idx @ target_hits c T m p (unat (y (L ! pos_L)) mod kBC c) pos_L)
             else Inl (idx_fault cap))"
      unfolding r using rl assms(3) l by (intro match_targets_eq) auto
  qed
  thus ?thesis by (simp add: bucket_hits_def)
qed

lemma ucast_residue:
  fixes w :: "64 word"
  assumes "unat w < 65536"
  shows "unat (ucast w :: 16 word) = unat w"
  using assms by (simp add: unsigned_ucast_eq take_bit_nat_eq_self)

lemma find_matches_ex_eq:
  fixes L R :: "'a entry_y_scheme list"
  assumes ok: "params_ok c" and inv: "FxMatcher_inv c m" and ne: "L \<noteq> []" "R \<noteq> []"
    and inL: "in_bucket c b L" and inR: "in_bucket c (Suc b) R"
  shows "\<exists>m2. find_matches_ex c (load_tables c) cap m L R
              = (if length (bucket_hits c (load_tables c) m2 (b mod 2) L) \<le> idx_limit cap
                 then Inr (bucket_hits c (load_tables c) m2 (b mod 2) L, m2) else Inl (idx_fault cap))
            \<and> FxMatcher_inv c m2
            \<and> (\<forall>r<kBC c. r_count (rmap m2 r) = of_nat (length (filter (\<lambda>e. unat (y e) mod kBC c = r) R)))
            \<and> (\<forall>r<kBC c. 0 < length (filter (\<lambda>e. unat (y e) mod kBC c = r) R)
                    \<and> length (filter (\<lambda>e. unat (y e) mod kBC c = r) R) < 65536
                 \<longrightarrow> (\<exists>q<length R. r_pos (rmap m2 r) = of_nat q \<and> unat (y (R ! q)) mod kBC c = r
                        \<and> (\<forall>p<q. unat (y (R ! p)) mod kBC c \<noteq> r)))"
proof -
  let ?K = "of_nat (kBC c) :: 64 word"
  let ?offset = "(y (R ! 0) div ?K) * ?K"
  let ?res = "\<lambda>p. unat (y (R ! p) - ?offset)"
  have kpos: "0 < kBC c" and klt: "kBC c < 65536" using ok by (simp_all add: params_ok_def)
  obtain m1 where m1: "rmap_reset c m = Inr m1" "rmap_clean m1 = []"
    and z1: "\<And>r. r < kBC c \<Longrightarrow> r_count (rmap m1 r) = 0"
    using rmap_reset_ok [OF inv] by blast
  have R0: "bucket_index c (R ! 0) = Suc b" and L0: "bucket_index c (L ! 0) = b"
    using ne inL inR by (auto simp: in_bucket_def)
  have off: "unat ?offset = Suc b * kBC c" using offset_unat [OF ok, of "R ! 0"] R0 by simp
  have resR: "?res p = unat (y (R ! p)) mod kBC c" if "p < length R" for p
  proof -
    have "bucket_index c (R ! p) = Suc b" using inR that by (auto simp: in_bucket_def)
    thus ?thesis using off by (intro residue_unat) simp
  qed
  hence inb: "\<forall>p<length R. ?res p < kBC c" using kpos by simp
  from rmap_add_loop [OF inb, of "length R" m1]
  obtain m2 where m2: "fold_err (rmap_add c ?offset R) [0..<length R] m1 = Inr m2"
    and cl: "rmap_clean m2 = rmap_clean m1 @ map (\<lambda>p. ucast (y (R ! p) - ?offset)) [0..<length R]"
    and ct: "\<And>r. r_count (rmap m2 r)
               = r_count (rmap m1 r) + of_nat (length (filter (\<lambda>p. ?res p = r) [0..<length R]))"
    and ps: "\<And>r. r_count (rmap m1 r) = 0
               \<Longrightarrow> 0 < length (filter (\<lambda>p. ?res p = r) [0..<length R])
               \<Longrightarrow> length (filter (\<lambda>p. ?res p = r) [0..<length R]) < 65536
             \<Longrightarrow> r_pos (rmap m2 r) = of_nat (LEAST p. ?res p = r)"
    by auto
  have cnt: "length (filter (\<lambda>p. ?res p = r) [0..<length R])
             = length (filter (\<lambda>e. unat (y e) mod kBC c = r) R)" for r
  proof -
    have "filter (\<lambda>p. ?res p = r) [0..<length R] = filter (\<lambda>p. unat (y (R ! p)) mod kBC c = r) [0..<length R]"
      by (rule filter_cong) (auto simp: resR)
    thus ?thesis using cnt_nth [of "\<lambda>e. unat (y e) mod kBC c = r" R] by simp
  qed
  have count2: "r_count (rmap m2 r) = of_nat (length (filter (\<lambda>e. unat (y e) mod kBC c = r) R))"
    if "r < kBC c" for r
    using ct [of r] z1 [OF that] by (simp add: cnt)
  have pos2: "\<exists>q<length R. r_pos (rmap m2 r) = of_nat q \<and> unat (y (R ! q)) mod kBC c = r
                        \<and> (\<forall>p<q. unat (y (R ! p)) mod kBC c \<noteq> r)"
    if r: "r < kBC c" and p: "0 < length (filter (\<lambda>e. unat (y e) mod kBC c = r) R)"
      and b: "length (filter (\<lambda>e. unat (y e) mod kBC c = r) R) < 65536" for r
  proof -
    let ?q = "LEAST p. ?res p = r"
    have rp: "r_pos (rmap m2 r) = of_nat ?q" using ps [of r] z1 [OF r] p b by (simp add: cnt)
    have "length (filter (\<lambda>p. ?res p = r) [0..<length R]) \<noteq> 0" using p by (simp add: cnt)
    then obtain p0 where p0: "p0 < length R" "?res p0 = r" by (auto simp only: cnt_zero)
    have q1: "?res ?q = r" using p0(2) by (rule LeastI)
    have q2: "?q \<le> p0" using p0(2) by (rule Least_le)
    hence q3: "?q < length R" using p0(1) by simp
    have q4: "?res p \<noteq> r" if "p < ?q" for p using that by (rule not_less_Least)
    have "\<forall>p<?q. unat (y (R ! p)) mod kBC c \<noteq> r"
    proof (intro allI impI)
      fix p assume "p < ?q"
      thus "unat (y (R ! p)) mod kBC c \<noteq> r" using q4 [of p] q3 resR [of p] by simp
    qed
    thus ?thesis using rp q1 q3 resR [of ?q] by (intro exI [of _ ?q]) simp
  qed
  have inv2: "FxMatcher_inv c m2"
    unfolding FxMatcher_inv_def
  proof (intro conjI ballI impI)
    fix w assume "w \<in> set (rmap_clean m2)"
    then obtain p where p: "p < length R" "w = ucast (y (R ! p) - ?offset)"
      by (auto simp: cl m1(2))
    have "?res p < 65536" using inb p(1) klt by (meson less_trans)
    hence "unat w = ?res p" unfolding p(2) by (rule ucast_residue)
    thus "unat w < kBC c" using inb p(1) by simp
  next
    fix r assume r: "r \<in> {..<kBC c}" and nz: "r_count (rmap m2 r) \<noteq> 0"
    hence "length (filter (\<lambda>p. ?res p = r) [0..<length R]) \<noteq> 0"
      using count2 [of r] by (auto simp: cnt)
    then obtain p where p: "p < length R" "?res p = r" by (auto simp only: cnt_zero)
    have "?res p < 65536" using inb p(1) klt by (meson less_trans)
    hence "unat (ucast (y (R ! p) - ?offset) :: 16 word) = r" using p(2) by (simp add: ucast_residue)
    moreover have "ucast (y (R ! p) - ?offset) \<in> set (rmap_clean m2)" using p(1) by (simp add: cl m1(2))
    ultimately show "r \<in> unat ` set (rmap_clean m2)" by (metis imageI)
  qed
  have par: "unat ((y (L ! 0) div ?K) mod 2) = b mod 2" using parity_unat [OF ok, of "L ! 0"] L0 by simp
  have offy: "unat (?offset - ?K) = b * kBC c" using ok off by (rule offset_y_unat)
  have resL: "\<forall>pos_L<length L. unat (y (L ! pos_L) - (?offset - ?K)) = unat (y (L ! pos_L)) mod kBC c"
  proof (intro allI impI)
    fix pos_L assume "pos_L < length L"
    hence "bucket_index c (L ! pos_L) = b" using inL by (auto simp: in_bucket_def)
    thus "unat (y (L ! pos_L) - (?offset - ?K)) = unat (y (L ! pos_L)) mod kBC c"
      using offy by (intro residue_unat) simp
  qed
  have tab: "\<forall>r<kBC c. \<forall>i<kExtraBitsPow c. load_tables c (b mod 2) r i < kBC c"
    using target_yr_less(1) [OF ok] by (simp add: load_tables_apply)
  have "find_matches_ex c (load_tables c) cap m L R
        = (if length (bucket_hits c (load_tables c) m2 (b mod 2) L) \<le> idx_limit cap
           then Inr (bucket_hits c (load_tables c) m2 (b mod 2) L, m2) else Inl (idx_fault cap))"
    unfolding find_matches_ex_def
    using ne by (simp add: Let_def m1(1) m2 par bucket_loop_eq [where T = "load_tables c" and p = "b mod 2", OF resL kpos tab])
  thus ?thesis using inv2 count2 pos2 by blast
qed

subsection \<open>the matching relation and the target table\<close>

lemma int_cong_shift:
  "((a :: int) - u) mod n = v mod n \<longleftrightarrow> a mod n = (u + v) mod n"
proof -
  have "(a - u) mod n = v mod n \<longleftrightarrow> n dvd (a - u) - v" by (rule mod_eq_dvd_iff)
  also have "(a - u) - v = a - (u + v)" by simp
  also have "n dvd a - (u + v) \<longleftrightarrow> a mod n = (u + v) mod n" by (rule mod_eq_dvd_iff [symmetric])
  finally show ?thesis .
qed

lemma nat_cong_shift:
  "(int a - int u) mod int n = int v mod int n \<longleftrightarrow> a mod n = (u + v) mod n"
proof -
  have "(int a - int u) mod int n = int v mod int n \<longleftrightarrow> int a mod int n = (int u + int v) mod int n"
    by (rule int_cong_shift)
  also have "\<dots> \<longleftrightarrow> int (a mod n) = int ((u + v) mod n)" by (simp add: zmod_int)
  also have "\<dots> \<longleftrightarrow> a mod n = (u + v) mod n" by simp
  finally show ?thesis .
qed

lemma divmod_unique:
  fixes a :: nat
  assumes "0 < C" "s < C"
  shows "a = q * C + s \<longleftrightarrow> a div C = q \<and> a mod C = s"
proof
  assume "a = q * C + s" thus "a div C = q \<and> a mod C = s" using assms by simp
next
  assume "a div C = q \<and> a mod C = s"
  thus "a = q * C + s" using div_mult_mod_eq [of a C] by simp
qed

lemma matching_iff:
  assumes ok: "params_ok c" and l: "yl div kBC c = b" and r: "yr div kBC c = Suc b"
  shows "matching c yl yr
         \<longleftrightarrow> (\<exists>m<kExtraBitsPow c. yr mod kBC c = target_yr c (b mod 2) (yl mod kBC c) m)"
proof -
  let ?a = "yr mod kBC c" and ?i = "yl mod kBC c"
  have B: "0 < kB c" and C: "0 < kC c" and BC: "kBC c = kB c * kC c"
    using ok by (simp_all add: params_ok_def)
  have aB: "?a div kC c < kB c"
    using B C BC by (simp add: less_mult_imp_div_less mult.commute)
  have one: "?a = target_yr c (b mod 2) ?i m
     \<longleftrightarrow> (int (?a div kC c) - int (?i div kC c)) mod int (kB c) = int m mod int (kB c)
        \<and> (int (?a mod kC c) - int (?i mod kC c)) mod int (kC c)
            = int ((2 * m + b mod 2)\<^sup>2) mod int (kC c)" for m
  proof -
    let ?q = "(?i div kC c + m) mod kB c" and ?s = "((2 * m + b mod 2) * (2 * m + b mod 2) + ?i) mod kC c"
    have "?a = target_yr c (b mod 2) ?i m \<longleftrightarrow> ?a = ?q * kC c + ?s"
      using target_yr_less(2) [OF ok] by simp
    also have "\<dots> \<longleftrightarrow> ?a div kC c = ?q \<and> ?a mod kC c = ?s"
      using C by (intro divmod_unique) simp_all
    also have "?a div kC c = ?q \<longleftrightarrow> (?a div kC c) mod kB c = (?i div kC c + m) mod kB c"
      using aB by simp
    also have "\<dots> \<longleftrightarrow> (int (?a div kC c) - int (?i div kC c)) mod int (kB c) = int m mod int (kB c)"
      by (rule nat_cong_shift [symmetric])
    also have "?a mod kC c = ?s \<longleftrightarrow> (?a mod kC c) mod kC c = (?i mod kC c + (2 * m + b mod 2)\<^sup>2) mod kC c"
      using mod_add_left_eq [of ?i "kC c" "(2 * m + b mod 2) * (2 * m + b mod 2)"]
      by (simp add: power2_eq_square add.commute)
    also have "\<dots> \<longleftrightarrow> (int (?a mod kC c) - int (?i mod kC c)) mod int (kC c)
            = int ((2 * m + b mod 2)\<^sup>2) mod int (kC c)"
      by (rule nat_cong_shift [symmetric])
    finally show ?thesis .
  qed
  have "int (yr div kBC c) - int (yl div kBC c) = 1" using l r by simp
  thus ?thesis unfolding matching_def using l by (auto simp: one)
qed

subsection \<open>contiguous residues form an interval\<close>

lemma convex_interval:
  fixes S :: "nat set"
  assumes fin: "finite S" and q: "q \<in> S" and low: "\<forall>p\<in>S. q \<le> p"
    and conv: "\<forall>p\<in>S. \<forall>k. q \<le> k \<and> k \<le> p \<longrightarrow> k \<in> S"
  shows "S = {q..<q + card S}"
proof -
  have sub: "S \<subseteq> {q..<q + card S}"
  proof
    fix p assume p: "p \<in> S"
    hence "{q..p} \<subseteq> S" using conv by auto
    hence "card {q..p} \<le> card S" using fin by (rule card_mono [rotated])
    moreover have "q \<le> p" using low p by simp
    ultimately show "p \<in> {q..<q + card S}" by simp
  qed
  moreover have "card {q..<q + card S} = card S" by simp
  ultimately show ?thesis using card_subset_eq [of "{q..<q + card S}" S] by simp
qed

lemma same_bucket_residue:
  fixes e e' :: "'a entry_y_scheme"
  assumes "bucket_index c e = bucket_index c e'" "unat (y e) mod kBC c = unat (y e') mod kBC c"
  shows "y e = y e'"
proof -
  have "unat (y e) = unat (y e) div kBC c * kBC c + unat (y e) mod kBC c"
    by (simp only: div_mult_mod_eq)
  also have "\<dots> = unat (y e') div kBC c * kBC c + unat (y e') mod kBC c"
    using assms by (simp only: bucket_index_def)
  also have "\<dots> = unat (y e')" by (simp only: div_mult_mod_eq)
  finally show ?thesis by (simp only: word_unat_eq_iff)
qed

lemma residue_block:
  fixes R :: "'a entry_y_scheme list"
  assumes con: "contiguous R" and inR: "in_bucket c b1 R"
    and q: "q < length R" "unat (y (R ! q)) mod kBC c = t" "\<forall>p<q. unat (y (R ! p)) mod kBC c \<noteq> t"
  shows "{p. p < length R \<and> unat (y (R ! p)) mod kBC c = t}
         = {q..<q + length (filter (\<lambda>e. unat (y e) mod kBC c = t) R)}"
proof -
  let ?S = "{p. p < length R \<and> unat (y (R ! p)) mod kBC c = t}"
  have fin: "finite ?S" by simp
  have qS: "q \<in> ?S" using q by simp
  have low: "\<forall>p\<in>?S. q \<le> p" using q(3) by (auto simp: not_less [symmetric])
  have conv: "\<forall>p\<in>?S. \<forall>k. q \<le> k \<and> k \<le> p \<longrightarrow> k \<in> ?S"
  proof (intro ballI allI impI)
    fix p k assume p: "p \<in> ?S" and k: "q \<le> k \<and> k \<le> p"
    have "bucket_index c (R ! q) = bucket_index c (R ! p)"
      using inR p q(1) by (auto simp: in_bucket_def)
    hence "y (R ! q) = y (R ! p)" using p q(2) by (intro same_bucket_residue) auto
    moreover have "p \<in> set [0..<length R]" "q \<in> set [0..<Suc p]" "k \<in> set [q..<Suc p]"
      using p k by auto
    ultimately have "y (R ! k) = y (R ! q)" using con unfolding contiguous_def by blast
    thus "k \<in> ?S" using q(2) k p by auto
  qed
  have "card ?S = length (filter (\<lambda>e. unat (y e) mod kBC c = t) R)"
    by (simp add: length_filter_conv_card)
  thus ?thesis using convex_interval [OF fin qS low conv] by simp
qed

lemma bucket_hits_mem:
  "lr \<in> set (bucket_hits c T m p L)
   \<longleftrightarrow> (\<exists>pos_L<length L. \<exists>i<kExtraBitsPow c.
          \<exists>j<unat (r_count (rmap m (T p (unat (y (L ! pos_L)) mod kBC c) i))).
            lr = (of_nat pos_L, of_nat (unat (r_pos (rmap m (T p (unat (y (L ! pos_L)) mod kBC c) i))) + j)))"
  unfolding bucket_hits_def target_hits_def
  by (simp only: set_concat set_map set_upt image_iff UN_iff atLeastLessThan_iff bex_simps) (force simp del: of_nat_add)

lemma bucket_hits_loaded:
  assumes "0 < kBC c" "p < 2"
  shows "bucket_hits c (load_tables c) m p L = bucket_hits c (target_yr c) m p L"
proof -
  have "target_hits c (load_tables c) m p r pos_L = target_hits c (target_yr c) m p r pos_L"
    if "r < kBC c" for r pos_L
    unfolding target_hits_def
    by (rule arg_cong [where f = concat], rule map_cong) (use that assms in \<open>simp_all add: load_tables_apply\<close>)
  thus ?thesis
    unfolding bucket_hits_def
    by (intro arg_cong [where f = concat] map_cong) (use assms in simp_all)
qed

lemma word16_unat_of_nat: "n < 65536 \<Longrightarrow> unat (of_nat n :: 16 word) = n"
  by (simp only: unat_of_nat) simp

lemma brute_force_mem:
  "ij \<in> set (brute_force c L R)
   \<longleftrightarrow> fst ij < length L \<and> snd ij < length R
       \<and> matching c (unat (y (L ! fst ij))) (unat (y (R ! snd ij)))"
  by (cases ij) (auto simp: brute_force_def split: if_splits)

lemma bucket_hits_pairs:
  fixes L R :: "'a entry_y_scheme list"
  assumes ok: "params_ok c" and inL: "in_bucket c b L" and inR: "in_bucket c (Suc b) R"
    and con: "contiguous R" and lL: "length L \<le> 65536" and lR: "length R < 65536"
    and count2: "\<forall>r<kBC c. r_count (rmap m2 r) = of_nat (length (filter (\<lambda>e. unat (y e) mod kBC c = r) R))"
    and pos2: "\<forall>r<kBC c. 0 < length (filter (\<lambda>e. unat (y e) mod kBC c = r) R)
                    \<and> length (filter (\<lambda>e. unat (y e) mod kBC c = r) R) < 65536
                 \<longrightarrow> (\<exists>q<length R. r_pos (rmap m2 r) = of_nat q \<and> unat (y (R ! q)) mod kBC c = r
                        \<and> (\<forall>p<q. unat (y (R ! p)) mod kBC c \<noteq> r))"
  shows "(\<lambda>lr. (unat (fst lr), unat (snd lr))) ` set (bucket_hits c (load_tables c) m2 (b mod 2) L)
         = set (brute_force c L R)"
proof -
  let ?rho = "\<lambda>e. unat (y e) mod kBC c"
  let ?n = "\<lambda>t. length (filter (\<lambda>e. ?rho e = t) R)"
  have nlt: "?n t < 65536" for t by (rule le_less_trans [OF length_filter_le lR])
  have kpos: "0 < kBC c" using ok by (simp add: params_ok_def)
  \<comment> \<open>the positions written for one target residue\<close>
  have tgt: "(\<exists>j<unat (r_count (rmap m2 t)). p = unat (of_nat (unat (r_pos (rmap m2 t)) + j) :: 16 word))
             \<longleftrightarrow> p < length R \<and> ?rho (R ! p) = t" if t: "t < kBC c" for t p
  proof -
    have cnt: "unat (r_count (rmap m2 t)) = ?n t"
      using count2 t word16_unat_of_nat [OF nlt [of t]] by simp
    show ?thesis
    proof (cases "?n t = 0")
      case True
      hence "\<forall>e\<in>set R. ?rho e \<noteq> t" by (simp add: filter_empty_conv)
      thus ?thesis using cnt True by auto
    next
      case False
      hence "0 < ?n t \<and> ?n t < 65536" using nlt [of t] by simp
      with pos2 t obtain q where q: "q < length R" "r_pos (rmap m2 t) = of_nat q" "?rho (R ! q) = t"
        "\<forall>p<q. ?rho (R ! p) \<noteq> t"
        by blast
      have blk: "{p. p < length R \<and> ?rho (R ! p) = t} = {q..<q + ?n t}"
        using con inR q(1,3,4) by (rule residue_block)
      have uq: "unat (r_pos (rmap m2 t)) = q" using q(1,2) lR word16_unat_of_nat [of q] by simp
      have inr: "q + j < 65536" if "j < ?n t" for j
      proof -
        have "q + j \<in> {p. p < length R \<and> ?rho (R ! p) = t}" using that blk by simp
        thus ?thesis using lR by simp
      qed
      have eq: "unat (of_nat (q + j) :: 16 word) = q + j" if "j < ?n t" for j
        using inr [OF that] by (rule word16_unat_of_nat)
      have "(\<exists>j<?n t. p = unat (of_nat (q + j) :: 16 word)) \<longleftrightarrow> (\<exists>j<?n t. p = q + j)"
        using eq by (auto simp del: of_nat_add)
      also have "\<dots> \<longleftrightarrow> p \<in> {q..<q + ?n t}" by (auto intro: exI [of _ "p - q"])
      also have "\<dots> \<longleftrightarrow> p < length R \<and> ?rho (R ! p) = t" using blk by blast
      finally show ?thesis by (simp add: cnt uq)
    qed
  qed
  show ?thesis
  proof (rule set_eqI)
    fix ij :: "nat \<times> nat"
    obtain i j where ij: "ij = (i, j)" by (cases ij)
    have tlt: "target_yr c (b mod 2) r k < kBC c" for r k using target_yr_less(1) [OF ok] .
    have ld: "bucket_hits c (load_tables c) m2 (b mod 2) L = bucket_hits c (target_yr c) m2 (b mod 2) L"
      using kpos by (intro bucket_hits_loaded) simp_all
    have "ij \<in> (\<lambda>lr. (unat (fst lr), unat (snd lr))) ` set (bucket_hits c (load_tables c) m2 (b mod 2) L)
          \<longleftrightarrow> (\<exists>lr. lr \<in> set (bucket_hits c (target_yr c) m2 (b mod 2) L)
                    \<and> i = unat (fst lr) \<and> j = unat (snd lr))"
      by (simp only: ij ld image_iff Bex_def prod.inject)
    also have "\<dots> \<longleftrightarrow> (\<exists>pos_L<length L. \<exists>k<kExtraBitsPow c.
                 \<exists>j'<unat (r_count (rmap m2 (target_yr c (b mod 2) (?rho (L ! pos_L)) k))).
                   i = unat (of_nat pos_L :: 16 word)
                   \<and> j = unat (of_nat (unat (r_pos (rmap m2 (target_yr c (b mod 2) (?rho (L ! pos_L)) k))) + j') :: 16 word))"
      unfolding bucket_hits_mem
    proof (intro iffI)
      assume "\<exists>lr :: 16 word \<times> 16 word. (\<exists>pos_L<length L. \<exists>k<kExtraBitsPow c.
                 \<exists>j'<unat (r_count (rmap m2 (target_yr c (b mod 2) (?rho (L ! pos_L)) k))).
                   lr = (of_nat pos_L, of_nat (unat (r_pos (rmap m2 (target_yr c (b mod 2) (?rho (L ! pos_L)) k))) + j')))
               \<and> i = unat (fst lr) \<and> j = unat (snd lr)"
      then obtain lr :: "16 word \<times> 16 word" and pos_L k j' where "pos_L < length L" "k < kExtraBitsPow c"
        "j' < unat (r_count (rmap m2 (target_yr c (b mod 2) (?rho (L ! pos_L)) k)))"
        "lr = (of_nat pos_L, of_nat (unat (r_pos (rmap m2 (target_yr c (b mod 2) (?rho (L ! pos_L)) k))) + j'))"
        "i = unat (fst lr)" "j = unat (snd lr)"
        by blast
      thus "\<exists>pos_L<length L. \<exists>k<kExtraBitsPow c.
                 \<exists>j'<unat (r_count (rmap m2 (target_yr c (b mod 2) (?rho (L ! pos_L)) k))).
                   i = unat (of_nat pos_L :: 16 word)
                   \<and> j = unat (of_nat (unat (r_pos (rmap m2 (target_yr c (b mod 2) (?rho (L ! pos_L)) k))) + j') :: 16 word)"
        by (simp only: fst_conv snd_conv) blast
    next
      assume "\<exists>pos_L<length L. \<exists>k<kExtraBitsPow c.
                 \<exists>j'<unat (r_count (rmap m2 (target_yr c (b mod 2) (?rho (L ! pos_L)) k))).
                   i = unat (of_nat pos_L :: 16 word)
                   \<and> j = unat (of_nat (unat (r_pos (rmap m2 (target_yr c (b mod 2) (?rho (L ! pos_L)) k))) + j') :: 16 word)"
      then obtain pos_L k j' where "pos_L < length L" "k < kExtraBitsPow c"
        "j' < unat (r_count (rmap m2 (target_yr c (b mod 2) (?rho (L ! pos_L)) k)))"
        "i = unat (of_nat pos_L :: 16 word)"
        "j = unat (of_nat (unat (r_pos (rmap m2 (target_yr c (b mod 2) (?rho (L ! pos_L)) k))) + j') :: 16 word)"
        by blast
      thus "\<exists>lr :: 16 word \<times> 16 word. (\<exists>pos_L<length L. \<exists>k<kExtraBitsPow c.
                 \<exists>j'<unat (r_count (rmap m2 (target_yr c (b mod 2) (?rho (L ! pos_L)) k))).
                   lr = (of_nat pos_L, of_nat (unat (r_pos (rmap m2 (target_yr c (b mod 2) (?rho (L ! pos_L)) k))) + j')))
               \<and> i = unat (fst lr) \<and> j = unat (snd lr)"
        by (simp only: ex_simps fst_conv snd_conv simp_thms split_paired_Ex) blast
    qed
    also have "\<dots> \<longleftrightarrow> (\<exists>pos_L<length L. \<exists>k<kExtraBitsPow c. i = unat (of_nat pos_L :: 16 word)
                   \<and> j < length R \<and> ?rho (R ! j) = target_yr c (b mod 2) (?rho (L ! pos_L)) k)"
      using tgt [OF tlt] by blast
    also have "\<dots> \<longleftrightarrow> (i < length L \<and> j < length R
                   \<and> (\<exists>k<kExtraBitsPow c. ?rho (R ! j) = target_yr c (b mod 2) (?rho (L ! i)) k))"
    proof -
      have u: "unat (of_nat pos_L :: 16 word) = pos_L" if "pos_L < length L" for pos_L
        using that lL by (intro word16_unat_of_nat) simp
      show ?thesis
      proof (intro iffI)
        assume "\<exists>pos_L<length L. \<exists>k<kExtraBitsPow c. i = unat (of_nat pos_L :: 16 word)
                   \<and> j < length R \<and> ?rho (R ! j) = target_yr c (b mod 2) (?rho (L ! pos_L)) k"
        then obtain pos_L k where pk: "pos_L < length L" "k < kExtraBitsPow c"
          "i = unat (of_nat pos_L :: 16 word)" "j < length R"
          "?rho (R ! j) = target_yr c (b mod 2) (?rho (L ! pos_L)) k"
          by blast
        have "i = pos_L" using pk(1,3) u by simp
        thus "i < length L \<and> j < length R
                   \<and> (\<exists>k<kExtraBitsPow c. ?rho (R ! j) = target_yr c (b mod 2) (?rho (L ! i)) k)"
          using pk by blast
      next
        assume "i < length L \<and> j < length R
                   \<and> (\<exists>k<kExtraBitsPow c. ?rho (R ! j) = target_yr c (b mod 2) (?rho (L ! i)) k)"
        then obtain k where ik: "i < length L" "j < length R" "k < kExtraBitsPow c"
          "?rho (R ! j) = target_yr c (b mod 2) (?rho (L ! i)) k"
          by blast
        have "i = unat (of_nat i :: 16 word)" using u [OF ik(1)] by simp
        thus "\<exists>pos_L<length L. \<exists>k<kExtraBitsPow c. i = unat (of_nat pos_L :: 16 word)
                   \<and> j < length R \<and> ?rho (R ! j) = target_yr c (b mod 2) (?rho (L ! pos_L)) k"
          using ik by blast
      qed
    qed
    also have "\<dots> \<longleftrightarrow> (i < length L \<and> j < length R
                   \<and> matching c (unat (y (L ! i))) (unat (y (R ! j))))"
    proof -
      have "matching c (unat (y (L ! i))) (unat (y (R ! j)))
            \<longleftrightarrow> (\<exists>k<kExtraBitsPow c. ?rho (R ! j) = target_yr c (b mod 2) (?rho (L ! i)) k)"
        if "i < length L" "j < length R"
      proof (rule matching_iff [OF ok])
        show "unat (y (L ! i)) div kBC c = b" using inL that(1) by (auto simp: in_bucket_def bucket_index_def)
        show "unat (y (R ! j)) div kBC c = Suc b" using inR that(2) by (auto simp: in_bucket_def bucket_index_def)
      qed
      thus ?thesis by blast
    qed
    also have "\<dots> \<longleftrightarrow> ij \<in> set (brute_force c L R)" by (simp add: ij brute_force_mem)
    finally show "ij \<in> (\<lambda>lr. (unat (fst lr), unat (snd lr))) ` set (bucket_hits c (load_tables c) m2 (b mod 2) L)
          \<longleftrightarrow> ij \<in> set (brute_force c L R)" .
  qed
qed

lemma sum_list_nth: "sum_list (map (\<lambda>p. f (xs ! p)) [0..<length xs]) = sum_list (map f xs)"
proof -
  have "map f (map (nth xs) [0..<length xs]) = map f xs" by (simp only: map_nth)
  thus ?thesis by (simp add: comp_def)
qed

lemma bucket_hits_length:
  fixes L R :: "'a entry_y_scheme list"
  assumes ok: "params_ok c" and inL: "in_bucket c b L" and lR: "length R < 65536"
    and count2: "\<forall>r<kBC c. r_count (rmap m2 r) = of_nat (length (filter (\<lambda>e. unat (y e) mod kBC c = r) R))"
  shows "length (bucket_hits c (load_tables c) m2 (b mod 2) L) = match_count c L R"
proof -
  let ?rho = "\<lambda>e. unat (y e) mod kBC c"
  let ?n = "\<lambda>t. length (filter (\<lambda>e. ?rho e = t) R)"
  have kpos: "0 < kBC c" using ok by (simp add: params_ok_def)
  have nlt: "?n t < 65536" for t by (rule le_less_trans [OF length_filter_le lR])
  have th: "length (target_hits c (load_tables c) m2 (b mod 2) (?rho l) pos_L)
            = sum_list (map (\<lambda>i. ?n (target_yr c (b mod 2) (?rho l) i)) [0..<kExtraBitsPow c])"
    for l :: "'a entry_y_scheme" and pos_L
  proof -
    have "unat (r_count (rmap m2 (load_tables c (b mod 2) (?rho l) i))) = ?n (target_yr c (b mod 2) (?rho l) i)"
      if "i < kExtraBitsPow c" for i
    proof -
      have t: "load_tables c (b mod 2) (?rho l) i = target_yr c (b mod 2) (?rho l) i"
        using that kpos by (simp add: load_tables_apply)
      have "target_yr c (b mod 2) (?rho l) i < kBC c" using target_yr_less(1) [OF ok] .
      thus ?thesis using count2 word16_unat_of_nat [OF nlt] by (simp add: t)
    qed
    hence eq: "map (\<lambda>i. unat (r_count (rmap m2 (load_tables c (b mod 2) (?rho l) i)))) [0..<kExtraBitsPow c]
           = map (\<lambda>i. ?n (target_yr c (b mod 2) (?rho l) i)) [0..<kExtraBitsPow c]"
      by (intro map_cong) simp_all
    have "length (target_hits c (load_tables c) m2 (b mod 2) (?rho l) pos_L)
          = sum_list (map (\<lambda>i. unat (r_count (rmap m2 (load_tables c (b mod 2) (?rho l) i)))) [0..<kExtraBitsPow c])"
      by (simp add: target_hits_def length_concat comp_def)
    thus ?thesis by (simp only: eq)
  qed
  have "length (bucket_hits c (load_tables c) m2 (b mod 2) L)
        = sum_list (map (\<lambda>pos_L. sum_list (map (\<lambda>i. ?n (target_yr c (b mod 2) (?rho (L ! pos_L)) i)) [0..<kExtraBitsPow c]))
                     [0..<length L])"
    by (simp add: bucket_hits_def length_concat comp_def th)
  also have "\<dots> = sum_list (map (\<lambda>l. sum_list (map (\<lambda>i. ?n (target_yr c (b mod 2) (?rho l) i)) [0..<kExtraBitsPow c])) L)"
    by (rule sum_list_nth)
  also have "\<dots> = match_count c L R"
    unfolding match_count_def
    by (rule arg_cong [where f = sum_list], rule map_cong) (use inL in \<open>auto simp: in_bucket_def\<close>)
  finally show ?thesis .
qed

lemma FxMatcher_new_inv: "FxMatcher_inv c FxMatcher_new"
  by (simp add: FxMatcher_inv_def FxMatcher_new_def)

lemma match_count_empty: "match_count c [] R = 0" "match_count c L [] = 0"
  by (simp_all add: match_count_def)

lemma brute_force_empty: "brute_force c [] R = []" "brute_force c L [] = []"
  by (simp_all add: brute_force_def)

lemma find_matches_ex_result:
  fixes L R :: "'a entry_y_scheme list"
  assumes ok: "params_ok c" and inv: "FxMatcher_inv c m"
    and inL: "in_bucket c b L" and inR: "in_bucket c (Suc b) R"
    and con: "contiguous R" and lL: "length L \<le> 65536" and lR: "length R < 65536"
  shows "\<exists>idx m'. find_matches_ex c (load_tables c) cap m L R
                    = (if match_count c L R \<le> idx_limit cap then Inr (idx, m') else Inl (idx_fault cap))
           \<and> length idx = match_count c L R
           \<and> (\<lambda>lr. (unat (fst lr), unat (snd lr))) ` set idx = set (brute_force c L R)
           \<and> FxMatcher_inv c m'"
proof (cases "L = [] \<or> R = []")
  case True
  hence "find_matches_ex c (load_tables c) cap m L R = Inr ([], m)"
    by (simp add: find_matches_ex_def)
  moreover have "match_count c L R = 0" "brute_force c L R = []"
    using True match_count_empty brute_force_empty by auto
  ultimately show ?thesis using inv by (intro exI [of _ "[]"] exI [of _ m]) simp
next
  case False
  hence ne: "L \<noteq> []" "R \<noteq> []" by simp_all
  from find_matches_ex_eq [OF ok inv ne inL inR, of cap]
  obtain m2 where r: "find_matches_ex c (load_tables c) cap m L R
              = (if length (bucket_hits c (load_tables c) m2 (b mod 2) L) \<le> idx_limit cap
                 then Inr (bucket_hits c (load_tables c) m2 (b mod 2) L, m2) else Inl (idx_fault cap))"
    and inv2: "FxMatcher_inv c m2"
    and count2: "\<forall>r<kBC c. r_count (rmap m2 r) = of_nat (length (filter (\<lambda>e. unat (y e) mod kBC c = r) R))"
    and pos2: "\<forall>r<kBC c. 0 < length (filter (\<lambda>e. unat (y e) mod kBC c = r) R)
                    \<and> length (filter (\<lambda>e. unat (y e) mod kBC c = r) R) < 65536
                 \<longrightarrow> (\<exists>q<length R. r_pos (rmap m2 r) = of_nat q \<and> unat (y (R ! q)) mod kBC c = r
                        \<and> (\<forall>p<q. unat (y (R ! p)) mod kBC c \<noteq> r))"
    by blast
  have len: "length (bucket_hits c (load_tables c) m2 (b mod 2) L) = match_count c L R"
    using ok inL lR count2 by (rule bucket_hits_length)
  have st: "(\<lambda>lr. (unat (fst lr), unat (snd lr))) ` set (bucket_hits c (load_tables c) m2 (b mod 2) L)
         = set (brute_force c L R)"
    using ok inL inR con lL lR count2 pos2 by (rule bucket_hits_pairs)
  show ?thesis
    using r len st inv2
    by (intro exI [of _ "bucket_hits c (load_tables c) m2 (b mod 2) L"] exI [of _ m2]) simp
qed

lemma sum_list_bound:
  assumes "\<forall>a\<in>set xs. f a \<le> (k :: nat)"
  shows "sum_list (map f xs) \<le> length xs * k"
  using assms by (induction xs) auto

lemma match_count_le: "match_count c L R \<le> length L * (kExtraBitsPow c * length R)"
proof -
  have "sum_list (map (\<lambda>m. length (filter (\<lambda>e. unat (y e) mod kBC c
                     = target_yr c (bucket_index c l mod 2) (unat (y l) mod kBC c) m) R))
       [0..<kExtraBitsPow c]) \<le> length [0..<kExtraBitsPow c] * length R" for l :: "'a entry_y_scheme"
    by (rule sum_list_bound) simp
  hence "match_count c L R \<le> length L * (kExtraBitsPow c * length R)"
    unfolding match_count_def by (intro sum_list_bound) simp
  thus ?thesis .
qed

text \<open>
  C1, as the code has it: let the target table be loaded and the matcher be in the state that
  its constructor or an earlier call left.  For every left bucket \<open>L\<close> (all entries in bucket
  \<open>b\<close>, at most \<open>2^16\<close> entries) and right bucket \<open>R\<close> (all entries in bucket \<open>b + 1\<close>,
  fewer than \<open>2^16\<close> entries, entries with the same \<open>y\<close> contiguous), \<^verbatim>\<open>find_matches_ex\<close>
  returns if and only if the number \<open>match_count\<close> of pairs to write is at most the length of
  the index buffers and at most \<open>2^31 - 1\<close>, the largest value of the \<^verbatim>\<open>int\<close> counter; then it
  returns \<open>match_count\<close> pairs, and the set of pairs \<open>(idx_L[k], idx_R[k])\<close> is exactly the set
  of pairs that the brute-force scan with the matching relation of section 4.4 finds.
  Otherwise it writes behind the end of the buffers, or overflows the counter.
\<close>

theorem find_matches_ex_brute_force:
  fixes L R :: "'a entry_y_scheme list"
  assumes "params_ok c" and "FxMatcher_inv c m"
    and "in_bucket c b L" and "in_bucket c (Suc b) R"
    and "contiguous R" and "length L \<le> 65536" and "length R < 65536"
  shows "(match_count c L R \<le> cap \<and> match_count c L R \<le> 2 ^ 31 - 1 \<longrightarrow>
            (\<exists>idx m'. find_matches_ex c (load_tables c) cap m L R = Inr (idx, m')
                \<and> length idx = match_count c L R
                \<and> (\<lambda>lr. (unat (fst lr), unat (snd lr))) ` set idx = set (brute_force c L R)
                \<and> FxMatcher_inv c m'))
         \<and> (cap < match_count c L R \<and> cap \<le> 2 ^ 31 - 1 \<longrightarrow>
               find_matches_ex c (load_tables c) cap m L R = Inl BufferOverrun)
         \<and> (2 ^ 31 - 1 < match_count c L R \<and> 2 ^ 31 - 1 < cap \<longrightarrow>
               find_matches_ex c (load_tables c) cap m L R = Inl IntegerOverflow)"
proof -
  from find_matches_ex_result [OF assms, of cap]
  obtain idx m' where r: "find_matches_ex c (load_tables c) cap m L R
                    = (if match_count c L R \<le> idx_limit cap then Inr (idx, m') else Inl (idx_fault cap))"
    and l: "length idx = match_count c L R"
    and s: "(\<lambda>lr. (unat (fst lr), unat (snd lr))) ` set idx = set (brute_force c L R)"
    and i: "FxMatcher_inv c m'"
    by blast
  show ?thesis
  proof (intro conjI impI)
    assume "match_count c L R \<le> cap \<and> match_count c L R \<le> 2 ^ 31 - 1"
    hence "match_count c L R \<le> idx_limit cap" by (simp add: idx_limit_def INT_MAX_def)
    hence "find_matches_ex c (load_tables c) cap m L R = Inr (idx, m')" using r by simp
    thus "\<exists>idx m'. find_matches_ex c (load_tables c) cap m L R = Inr (idx, m')
                \<and> length idx = match_count c L R
                \<and> (\<lambda>lr. (unat (fst lr), unat (snd lr))) ` set idx = set (brute_force c L R)
                \<and> FxMatcher_inv c m'"
      using l s i by blast
  next
    assume a: "cap < match_count c L R \<and> cap \<le> 2 ^ 31 - 1"
    hence "\<not> match_count c L R \<le> idx_limit cap" "idx_fault cap = BufferOverrun"
      by (simp_all add: idx_limit_def idx_fault_def INT_MAX_def)
    thus "find_matches_ex c (load_tables c) cap m L R = Inl BufferOverrun" using r by simp
  next
    assume a: "2 ^ 31 - 1 < match_count c L R \<and> 2 ^ 31 - 1 < cap"
    hence "\<not> match_count c L R \<le> idx_limit cap" "idx_fault cap = IntegerOverflow"
      by (simp_all add: idx_limit_def idx_fault_def INT_MAX_def)
    thus "find_matches_ex c (load_tables c) cap m L R = Inl IntegerOverflow" using r by simp
  qed
qed

lemma sorted_contiguous:
  fixes es :: "'a entry_y_scheme list"
  assumes "sorted (map y es)"
  shows "contiguous es"
  unfolding contiguous_def
proof (intro ballI impI)
  fix j i k
  assume j: "j \<in> set [0..<length es]" and i: "i \<in> set [0..<Suc j]" and k: "k \<in> set [i..<Suc j]"
    and e: "y (es ! i) = y (es ! j)"
  have "map y es ! i \<le> map y es ! k" "map y es ! k \<le> map y es ! j"
    using assms i j k by (auto simp: sorted_iff_nth_mono)
  hence "y (es ! i) \<le> y (es ! k)" "y (es ! k) \<le> y (es ! j)" using i j k by auto
  thus "y (es ! k) = y (es ! i)" using e by simp
qed

lemma contiguous_4:
  "contiguous [\<lparr>y = 15113\<rparr>, \<lparr>y = 15113\<rparr>, \<lparr>y = 15244\<rparr>, \<lparr>y = 15245\<rparr>]"
  by (rule sorted_contiguous) simp

theorem find_matches_ex_brute_force_witness:
  "params_ok chia \<and> FxMatcher_inv chia FxMatcher_new
   \<and> in_bucket chia 0 [\<lparr>y = 0\<rparr>, \<lparr>y = 1\<rparr>]
   \<and> in_bucket chia (Suc 0) [\<lparr>y = 15113\<rparr>, \<lparr>y = 15113\<rparr>, \<lparr>y = 15244\<rparr>, \<lparr>y = 15245\<rparr>]
   \<and> contiguous [\<lparr>y = 15113\<rparr>, \<lparr>y = 15113\<rparr>, \<lparr>y = 15244\<rparr>, \<lparr>y = 15245\<rparr>]
   \<and> match_count chia [\<lparr>y = 0\<rparr>, \<lparr>y = 1\<rparr>]
         [\<lparr>y = 15113\<rparr>, \<lparr>y = 15113\<rparr>, \<lparr>y = 15244\<rparr>, \<lparr>y = 15245\<rparr>] \<le> 15113
   \<and> (\<exists>idx m'. find_matches_ex chia (load_tables chia) 15113 FxMatcher_new [\<lparr>y = 0\<rparr>, \<lparr>y = 1\<rparr>]
                    [\<lparr>y = 15113\<rparr>, \<lparr>y = 15113\<rparr>, \<lparr>y = 15244\<rparr>, \<lparr>y = 15245\<rparr>] = Inr (idx, m')
         \<and> length idx = match_count chia [\<lparr>y = 0\<rparr>, \<lparr>y = 1\<rparr>]
                             [\<lparr>y = 15113\<rparr>, \<lparr>y = 15113\<rparr>, \<lparr>y = 15244\<rparr>, \<lparr>y = 15245\<rparr>]
         \<and> (\<lambda>lr. (unat (fst lr), unat (snd lr))) ` set idx
             = set (brute_force chia [\<lparr>y = 0\<rparr>, \<lparr>y = 1\<rparr>]
                      [\<lparr>y = 15113\<rparr>, \<lparr>y = 15113\<rparr>, \<lparr>y = 15244\<rparr>, \<lparr>y = 15245\<rparr>])
         \<and> FxMatcher_inv chia m')"
proof -
  let ?L = "[\<lparr>y = 0\<rparr>, \<lparr>y = 1\<rparr>] :: entry_y list"
  let ?R = "[\<lparr>y = 15113\<rparr>, \<lparr>y = 15113\<rparr>, \<lparr>y = 15244\<rparr>, \<lparr>y = 15245\<rparr>] :: entry_y list"
  have inL: "in_bucket chia 0 ?L" and inR: "in_bucket chia (Suc 0) ?R"
    by (simp_all add: in_bucket_def bucket_index_def chia_def)
  have mc: "match_count chia ?L ?R \<le> 15113"
    using match_count_le [of chia ?L ?R] by (simp add: chia_def)
  hence mi: "match_count chia ?L ?R \<le> 2 ^ 31 - 1" by simp
  have lL: "length ?L \<le> 65536" and lR: "length ?R < 65536" by simp_all
  show ?thesis
    using find_matches_ex_brute_force [OF params_ok_chia FxMatcher_new_inv inL inR contiguous_4 lL lR,
        of 15113]
      params_ok_chia FxMatcher_new_inv inL inR contiguous_4 mc mi
    by simp
qed

lemma elem_le_sum_list: "(a :: nat) \<in> set xs \<Longrightarrow> a \<le> sum_list xs"
  by (induction xs) auto

lemma match_count_ge:
  fixes L R :: "'a entry_y_scheme list"
  assumes "l \<in> set L" "k < kExtraBitsPow c"
  shows "length (filter (\<lambda>e. unat (y e) mod kBC c
                     = target_yr c (bucket_index c l mod 2) (unat (y l) mod kBC c) k) R)
         \<le> match_count c L R"
proof -
  let ?f = "\<lambda>l m. length (filter (\<lambda>e. unat (y e) mod kBC c
                     = target_yr c (bucket_index c l mod 2) (unat (y l) mod kBC c) m) R)"
  let ?g = "\<lambda>l. sum_list (map (?f l) [0..<kExtraBitsPow c])"
  have "?f l k \<in> set (map (?f l) [0..<kExtraBitsPow c])" using assms(2) by simp
  hence "?f l k \<le> ?g l" by (rule elem_le_sum_list)
  moreover have "?g l \<in> set (map ?g L)" using assms(1) by simp
  hence "?g l \<le> sum_list (map ?g L)" by (rule elem_le_sum_list)
  ultimately show ?thesis unfolding match_count_def by simp
qed

lemma bucket_hits_no_counts:
  assumes ok: "params_ok c" and p: "p < 2" and z: "\<forall>r<kBC c. r_count (rmap m r) = 0"
  shows "bucket_hits c (load_tables c) m p L = []"
proof -
  have kpos: "0 < kBC c" using ok by (simp add: params_ok_def)
  have "r_count (rmap m (load_tables c p r i)) = 0" if "r < kBC c" "i < kExtraBitsPow c" for r i
    using that p z target_yr_less(1) [OF ok] by (simp add: load_tables_apply)
  hence "target_hits c (load_tables c) m p r pos_L = []" if "r < kBC c" for r pos_L
    using that by (simp add: target_hits_def)
  thus ?thesis using kpos by (simp add: bucket_hits_def)
qed

text \<open>
  The claim as written, for buckets of any size, fails when a 16-bit count wraps: for a
  right bucket of \<open>2^16\<close> entries with one \<open>y\<close> the count of their residue is 0 after the
  loop, so the matcher returns no pair, while the brute-force scan pairs the left entry
  with each of them.
\<close>

theorem find_matches_ex_brute_force_counterexample:
  "in_bucket chia 0 [\<lparr>y = 0\<rparr>] \<and> in_bucket chia (Suc 0) (replicate 65536 \<lparr>y = 15113\<rparr>)
   \<and> contiguous [\<lparr>y = 0\<rparr>] \<and> contiguous (replicate 65536 \<lparr>y = 15113\<rparr>)
   \<and> map_sum id fst (find_matches_ex chia (load_tables chia) 65536 FxMatcher_new
          [\<lparr>y = 0\<rparr>] (replicate 65536 \<lparr>y = 15113\<rparr>)) = Inr []
   \<and> (0, 0) \<in> set (brute_force chia [\<lparr>y = 0\<rparr>] (replicate 65536 \<lparr>y = 15113\<rparr>))"
proof -
  let ?L = "[\<lparr>y = 0\<rparr>] :: entry_y list"
  let ?R = "replicate 65536 \<lparr>y = 15113\<rparr> :: entry_y list"
  have inL: "in_bucket chia 0 ?L" and inR: "in_bucket chia (Suc 0) ?R"
    by (simp_all add: in_bucket_def bucket_index_def chia_def)
  have cL: "contiguous ?L" and cR: "contiguous ?R"
    by (rule sorted_contiguous, simp)+
  have ne: "?L \<noteq> []" "?R \<noteq> []" by simp_all
  from find_matches_ex_eq [OF params_ok_chia FxMatcher_new_inv ne inL inR, of 65536]
  obtain m2 where r: "find_matches_ex chia (load_tables chia) 65536 FxMatcher_new ?L ?R
              = (if length (bucket_hits chia (load_tables chia) m2 (0 mod 2) ?L) \<le> idx_limit 65536
                 then Inr (bucket_hits chia (load_tables chia) m2 (0 mod 2) ?L, m2)
                 else Inl (idx_fault 65536))"
    and count2: "\<forall>r<kBC chia. r_count (rmap m2 r)
                   = of_nat (length (filter (\<lambda>e. unat (y e) mod kBC chia = r) ?R))"
    by blast
  have "\<forall>r<kBC chia. r_count (rmap m2 r) = 0"
    using count2 by (simp add: filter_replicate)
  hence "bucket_hits chia (load_tables chia) m2 (0 mod 2) ?L = []"
    by (intro bucket_hits_no_counts [OF params_ok_chia]) simp_all
  hence res: "map_sum id fst (find_matches_ex chia (load_tables chia) 65536 FxMatcher_new ?L ?R) = Inr []"
    using r by simp
  have "matching chia (unat (0 :: 64 word)) (unat (15113 :: 64 word))"
    unfolding matching_def by (intro conjI bexI [of _ 0]) (simp_all add: chia_def)
  hence bf: "(0, 0) \<in> set (brute_force chia ?L ?R)"
    by (simp add: brute_force_mem)
  show ?thesis using inL inR cL cR res bf by simp
qed

text \<open>
  C2, as the code has it: under the conditions of C1 (table loaded, matcher state valid,
  \<open>L\<close> in bucket \<open>b\<close> with at most \<open>2^16\<close> entries, \<open>R\<close> in bucket \<open>b + 1\<close> with fewer than
  \<open>2^16\<close> entries, equal \<open>y\<close> contiguous in \<open>R\<close>, buffers for \<open>match_count\<close> pairs, and
  \<open>match_count\<close> at most \<open>2^31 - 1\<close>, the largest value of the \<^verbatim>\<open>int\<close> counter),
  \<^verbatim>\<open>find_matches_ex\<close> returns \<open>match_count\<close> pairs and every returned pair \<open>(i, j)\<close> is a pair of
  positions of \<open>L\<close> and \<open>R\<close> whose bucket indices differ by 1 and whose \<open>y\<close> values satisfy
  the matching relation of section 4.4.
\<close>

theorem find_matches_ex_sound:
  fixes L R :: "'a entry_y_scheme list"
  assumes "params_ok c" and "FxMatcher_inv c m"
    and "in_bucket c b L" and "in_bucket c (Suc b) R"
    and "contiguous R" and "length L \<le> 65536" and "length R < 65536"
    and "match_count c L R \<le> cap" and "match_count c L R \<le> 2 ^ 31 - 1"
  shows "\<exists>idx m'. find_matches_ex c (load_tables c) cap m L R = Inr (idx, m')
           \<and> length idx = match_count c L R
           \<and> (\<forall>lr\<in>set idx.
                 unat (fst lr) < length L \<and> unat (snd lr) < length R
                 \<and> int (bucket_index c (R ! unat (snd lr))) - int (bucket_index c (L ! unat (fst lr))) = 1
                 \<and> matching c (unat (y (L ! unat (fst lr)))) (unat (y (R ! unat (snd lr)))))"
proof -
  have "match_count c L R \<le> idx_limit cap"
    using assms(8,9) by (simp add: idx_limit_def INT_MAX_def)
  with find_matches_ex_result [OF assms(1-7), of cap]
  obtain idx m' where r: "find_matches_ex c (load_tables c) cap m L R = Inr (idx, m')"
    and l: "length idx = match_count c L R"
    and s: "(\<lambda>lr. (unat (fst lr), unat (snd lr))) ` set idx = set (brute_force c L R)"
    by auto
  have "unat (fst lr) < length L \<and> unat (snd lr) < length R
        \<and> int (bucket_index c (R ! unat (snd lr))) - int (bucket_index c (L ! unat (fst lr))) = 1
        \<and> matching c (unat (y (L ! unat (fst lr)))) (unat (y (R ! unat (snd lr))))"
    if "lr \<in> set idx" for lr
  proof -
    have "(unat (fst lr), unat (snd lr)) \<in> set (brute_force c L R)" using that s by blast
    hence b: "unat (fst lr) < length L" "unat (snd lr) < length R"
      "matching c (unat (y (L ! unat (fst lr)))) (unat (y (R ! unat (snd lr))))"
      by (simp_all add: brute_force_mem)
    have "bucket_index c (L ! unat (fst lr)) = b" "bucket_index c (R ! unat (snd lr)) = Suc b"
      using b(1,2) assms(3,4) by (auto simp: in_bucket_def)
    thus ?thesis using b by simp
  qed
  thus ?thesis using r l by blast
qed

theorem find_matches_ex_sound_witness:
  "params_ok chia \<and> FxMatcher_inv chia FxMatcher_new
   \<and> in_bucket chia 2 [\<lparr>y = 30226\<rparr>, \<lparr>y = 30227\<rparr>]
   \<and> in_bucket chia (Suc 2) [\<lparr>y = 45339\<rparr>, \<lparr>y = 45339\<rparr>, \<lparr>y = 45340\<rparr>]
   \<and> contiguous [\<lparr>y = 45339\<rparr>, \<lparr>y = 45339\<rparr>, \<lparr>y = 45340\<rparr>]
   \<and> 0 < match_count chia [\<lparr>y = 30226\<rparr>, \<lparr>y = 30227\<rparr>] [\<lparr>y = 45339\<rparr>, \<lparr>y = 45339\<rparr>, \<lparr>y = 45340\<rparr>]
   \<and> match_count chia [\<lparr>y = 30226\<rparr>, \<lparr>y = 30227\<rparr>] [\<lparr>y = 45339\<rparr>, \<lparr>y = 45339\<rparr>, \<lparr>y = 45340\<rparr>] \<le> 15113
   \<and> match_count chia [\<lparr>y = 30226\<rparr>, \<lparr>y = 30227\<rparr>] [\<lparr>y = 45339\<rparr>, \<lparr>y = 45339\<rparr>, \<lparr>y = 45340\<rparr>] \<le> 2 ^ 31 - 1
   \<and> (\<exists>idx m'. find_matches_ex chia (load_tables chia) 15113 FxMatcher_new
                    [\<lparr>y = 30226\<rparr>, \<lparr>y = 30227\<rparr>] [\<lparr>y = 45339\<rparr>, \<lparr>y = 45339\<rparr>, \<lparr>y = 45340\<rparr>] = Inr (idx, m')
         \<and> length idx = match_count chia [\<lparr>y = 30226\<rparr>, \<lparr>y = 30227\<rparr>]
                             [\<lparr>y = 45339\<rparr>, \<lparr>y = 45339\<rparr>, \<lparr>y = 45340\<rparr>]
         \<and> (\<forall>lr\<in>set idx.
               unat (fst lr) < length [\<lparr>y = 30226\<rparr>, \<lparr>y = 30227\<rparr>]
               \<and> unat (snd lr) < length [\<lparr>y = 45339\<rparr>, \<lparr>y = 45339\<rparr>, \<lparr>y = 45340\<rparr>]
               \<and> int (bucket_index chia ([\<lparr>y = 45339\<rparr>, \<lparr>y = 45339\<rparr>, \<lparr>y = 45340\<rparr>] ! unat (snd lr)))
                   - int (bucket_index chia ([\<lparr>y = 30226\<rparr>, \<lparr>y = 30227\<rparr>] ! unat (fst lr))) = 1
               \<and> matching chia (unat (y ([\<lparr>y = 30226\<rparr>, \<lparr>y = 30227\<rparr>] ! unat (fst lr))))
                                 (unat (y ([\<lparr>y = 45339\<rparr>, \<lparr>y = 45339\<rparr>, \<lparr>y = 45340\<rparr>] ! unat (snd lr))))))"
proof -
  let ?L = "[\<lparr>y = 30226\<rparr>, \<lparr>y = 30227\<rparr>] :: entry_y list"
  let ?R = "[\<lparr>y = 45339\<rparr>, \<lparr>y = 45339\<rparr>, \<lparr>y = 45340\<rparr>] :: entry_y list"
  have inL: "in_bucket chia 2 ?L" and inR: "in_bucket chia (Suc 2) ?R"
    by (simp_all add: in_bucket_def bucket_index_def chia_def)
  have cR: "contiguous ?R" by (rule sorted_contiguous) simp
  have mc: "match_count chia ?L ?R \<le> 15113"
    using match_count_le [of chia ?L ?R] by (simp add: chia_def)
  have "length (filter (\<lambda>e. unat (y e) mod kBC chia
                     = target_yr chia (bucket_index chia \<lparr>y = 30226\<rparr> mod 2) (unat (y \<lparr>y = 30226\<rparr>) mod kBC chia) 0) ?R)
         \<le> match_count chia ?L ?R"
    by (rule match_count_ge) (simp_all add: chia_def)
  hence mp: "0 < match_count chia ?L ?R"
    by (simp add: chia_def bucket_index_def target_yr_def)
  have mi: "match_count chia ?L ?R \<le> 2 ^ 31 - 1" using mc by simp
  have lL: "length ?L \<le> 65536" and lR: "length ?R < 65536" by simp_all
  show ?thesis
    using find_matches_ex_sound [OF params_ok_chia FxMatcher_new_inv inL inR cR lL lR mc mi]
      params_ok_chia FxMatcher_new_inv inL inR cR mc mi mp
    by simp
qed

text \<open>
  The claim as written does not ask for equal \<open>y\<close> values to be contiguous.  Without it a
  returned pair need not match: for the right bucket with the residues 0, 1, 0 the matcher
  pairs the left entry with the positions 0 and 1, and position 1 does not match.
\<close>

theorem find_matches_ex_sound_counterexample:
  "in_bucket chia 0 [\<lparr>y = 0\<rparr>]
   \<and> in_bucket chia (Suc 0) [\<lparr>y = 15113\<rparr>, \<lparr>y = 15114\<rparr>, \<lparr>y = 15113\<rparr>]
   \<and> map_sum id fst (find_matches_ex chia (load_tables chia) 15113 FxMatcher_new
          [\<lparr>y = 0\<rparr>] [\<lparr>y = 15113\<rparr>, \<lparr>y = 15114\<rparr>, \<lparr>y = 15113\<rparr>]) = Inr [(0, 0), (0, 1)]
   \<and> \<not> matching chia (unat (y ([\<lparr>y = 0\<rparr>] ! unat (0 :: 16 word))))
                     (unat (y ([\<lparr>y = 15113\<rparr>, \<lparr>y = 15114\<rparr>, \<lparr>y = 15113\<rparr>] ! unat (1 :: 16 word))))"
proof -
  have 1: "in_bucket chia 0 [\<lparr>y = 0\<rparr>]"
    "in_bucket chia (Suc 0) [\<lparr>y = 15113\<rparr>, \<lparr>y = 15114\<rparr>, \<lparr>y = 15113\<rparr>]"
    by (simp_all add: in_bucket_def bucket_index_def chia_def)
  have 2: "map_sum id fst (find_matches_ex chia (load_tables chia) 15113 FxMatcher_new
          [\<lparr>y = 0\<rparr>] [\<lparr>y = 15113\<rparr>, \<lparr>y = 15114\<rparr>, \<lparr>y = 15113\<rparr>]) = Inr [(0, 0), (0, 1)]"
    by (simp add: find_matches_ex_def rmap_reset_def FxMatcher_new_def rmap_add_def match_targets_def
      idx_write_def INT_MAX_def load_tables_apply target_yr_def chia_def upt_conv_Cons Let_def)
  have "\<not> (\<exists>k<kExtraBitsPow chia. 15114 mod kBC chia = target_yr chia (0 mod 2) (0 mod kBC chia) k)"
  proof
    assume "\<exists>k<kExtraBitsPow chia. 15114 mod kBC chia = target_yr chia (0 mod 2) (0 mod kBC chia) k"
    then obtain k :: nat where k: "k < 64" "1 = (k mod 119) * 127 + (2 * k * (2 * k)) mod 127"
      by (auto simp: chia_def target_yr_def)
    hence "k mod 119 = 0" by (cases "k mod 119") auto
    hence "k = 0" using k(1) by simp
    thus False using k(2) by simp
  qed
  hence 3: "\<not> matching chia 0 15114"
    using matching_iff [OF params_ok_chia, of 0 0 15114] by (simp add: chia_def)
  show ?thesis using 1 2 3 by simp
qed

section \<open>The matches of \<open>find_matches\<close>\<close>

subsection \<open>Conversions between word lengths\<close>






subsection \<open>The matches built from the index pairs\<close>


subsection \<open>The number of index pairs and the index buffers\<close>

lemma find_matches_ex_count:
  fixes L R :: "'a entry_y_scheme list"
  assumes ok: "params_ok c" and inv: "FxMatcher_inv c m"
    and inL: "in_bucket c b L" and inR: "in_bucket c (Suc b) R" and lR: "length R < 65536"
  shows "\<exists>idx m'. find_matches_ex c (load_tables c) cap m L R
                    = (if match_count c L R \<le> idx_limit cap then Inr (idx, m') else Inl (idx_fault cap))
           \<and> length idx = match_count c L R"
proof (cases "L = [] \<or> R = []")
  case True
  hence "find_matches_ex c (load_tables c) cap m L R = Inr ([], m)"
    by (simp add: find_matches_ex_def)
  moreover have "match_count c L R = 0"
    using True match_count_empty by auto
  ultimately show ?thesis by (intro exI [of _ "[]"] exI [of _ m]) simp
next
  case False
  hence ne: "L \<noteq> []" "R \<noteq> []" by simp_all
  from find_matches_ex_eq [OF ok inv ne inL inR, of cap]
  obtain m2 where r: "find_matches_ex c (load_tables c) cap m L R
              = (if length (bucket_hits c (load_tables c) m2 (b mod 2) L) \<le> idx_limit cap
                 then Inr (bucket_hits c (load_tables c) m2 (b mod 2) L, m2) else Inl (idx_fault cap))"
    and count2: "\<forall>r<kBC c. r_count (rmap m2 r) = of_nat (length (filter (\<lambda>e. unat (y e) mod kBC c = r) R))"
    by blast
  have len: "length (bucket_hits c (load_tables c) m2 (b mod 2) L) = match_count c L R"
    using ok inL lR count2 by (rule bucket_hits_length)
  show ?thesis
    using r len
    by (intro exI [of _ "bucket_hits c (load_tables c) m2 (b mod 2) L"] exI [of _ m2]) simp
qed

text \<open>
  C10.  The number of index pairs is not bounded by \<open>kBC\<close>.  For a left bucket of index
  \<open>b\<close> and a right bucket of index \<open>b + 1\<close>, each of at most \<open>kBC\<close> entries, and index
  buffers of \<open>cap \<le> 2\<^sup>3\<^sup>1 - 1\<close> elements, \<open>find_matches_ex\<close> returns \<open>match_count\<close> pairs,
  the sum over the left entries and the \<open>kExtraBitsPow\<close> targets of each of the number of
  right entries with the target's residue, when that number is at most \<open>cap\<close>, and writes
  behind the end of the buffers when it is larger.  \<open>find_matches\<close> passes buffers of
  \<open>kBC\<close> elements, so it overruns them whenever \<open>match_count\<close> exceeds \<open>kBC\<close>: with Chia's
  constants two buckets of 123 equal entries, the residue of the right ones a target of
  the left ones, give 123 \<sqdot> 123 = 15129 pairs for buffers of 15113 elements.
\<close>

theorem find_matches_idx_overrun:
  fixes L R :: "'a entry_y_scheme list"
  assumes "params_ok c" and "FxMatcher_inv c m"
    and "in_bucket c b L" and "in_bucket c (Suc b) R"
    and "length L \<le> kBC c" and "length R \<le> kBC c" and "cap \<le> 2 ^ 31 - 1"
  shows "(match_count c L R \<le> cap \<longrightarrow>
            (\<exists>idx m'. find_matches_ex c (load_tables c) cap m L R = Inr (idx, m')
                \<and> length idx = match_count c L R))
         \<and> (cap < match_count c L R \<longrightarrow>
              find_matches_ex c (load_tables c) cap m L R = Inl BufferOverrun)
         \<and> (kBC c < match_count c L R \<longrightarrow>
              find_matches c (load_tables c) m L_pos_begin L R = Inl BufferOverrun)"
proof -
  have k: "kBC c < 65536" using assms(1) by (simp add: params_ok_def)
  hence lR: "length R < 65536" using assms(6) by simp
  have lim: "idx_limit n = n" "idx_fault n = BufferOverrun" if "n \<le> 2 ^ 31 - 1" for n
    using that by (simp_all add: idx_limit_def idx_fault_def INT_MAX_def)
  have kl: "kBC c \<le> 2 ^ 31 - 1" using k by simp
  from find_matches_ex_count [OF assms(1-4) lR, of cap]
  have 1: "match_count c L R \<le> cap \<longrightarrow>
            (\<exists>idx m'. find_matches_ex c (load_tables c) cap m L R = Inr (idx, m')
                \<and> length idx = match_count c L R)"
    and 2: "cap < match_count c L R \<longrightarrow>
              find_matches_ex c (load_tables c) cap m L R = Inl BufferOverrun"
    using lim [OF assms(7)] by auto
  from find_matches_ex_count [OF assms(1-4) lR, of "kBC c"]
  have "kBC c < match_count c L R \<longrightarrow>
          find_matches_ex c (load_tables c) (kBC c) m L R = Inl BufferOverrun"
    using lim [OF kl] by auto
  hence 3: "kBC c < match_count c L R \<longrightarrow>
              find_matches c (load_tables c) m L_pos_begin L R = Inl BufferOverrun"
    by (simp add: find_matches_def)
  show ?thesis using 1 2 3 by (simp only: simp_thms)
qed

theorem find_matches_idx_overrun_witness:
  "params_ok chia \<and> FxMatcher_inv chia FxMatcher_new
   \<and> in_bucket chia 0 (replicate 123 \<lparr>y = 0\<rparr>)
   \<and> in_bucket chia (Suc 0) (replicate 123 \<lparr>y = 15113\<rparr>)
   \<and> length (replicate 123 \<lparr>y = 0\<rparr>) \<le> kBC chia
   \<and> length (replicate 123 \<lparr>y = 15113\<rparr>) \<le> kBC chia
   \<and> kBC chia = 15113
   \<and> match_count chia (replicate 123 \<lparr>y = 0\<rparr>) (replicate 123 \<lparr>y = 15113\<rparr>) = 15129
   \<and> (\<exists>idx m'. find_matches_ex chia (load_tables chia) 20000 FxMatcher_new
                    (replicate 123 \<lparr>y = 0\<rparr>) (replicate 123 \<lparr>y = 15113\<rparr>) = Inr (idx, m')
         \<and> length idx = 15129)
   \<and> find_matches_ex chia (load_tables chia) (kBC chia) FxMatcher_new
        (replicate 123 \<lparr>y = 0\<rparr>) (replicate 123 \<lparr>y = 15113\<rparr>) = Inl BufferOverrun
   \<and> (find_matches chia (load_tables chia) FxMatcher_new 0
        (replicate 123 \<lparr>y = 0\<rparr>) (replicate 123 \<lparr>y = 15113\<rparr>)
        :: fault + (entry_y, 32 word, 16 word) match_t list \<times> FxMatcher) = Inl BufferOverrun"
proof -
  let ?L = "replicate 123 \<lparr>y = 0\<rparr> :: entry_y list"
  let ?R = "replicate 123 \<lparr>y = 15113\<rparr> :: entry_y list"
  have inL: "in_bucket chia 0 ?L" and inR: "in_bucket chia (Suc 0) ?R"
    by (simp_all add: in_bucket_def bucket_index_def chia_def)
  have lL: "length ?L \<le> kBC chia" and lR: "length ?R \<le> kBC chia"
    by (simp_all add: chia_def)
  have kb: "kBC chia = 15113" by (simp add: chia_def)
  have mc: "match_count chia ?L ?R = 15129"
    by (simp add: match_count_def chia_def bucket_index_def target_yr_def filter_replicate
        sum_list_replicate upt_conv_Cons Let_def)
  have c1: "(20000 :: nat) \<le> 2 ^ 31 - 1" and c2: "kBC chia \<le> 2 ^ 31 - 1"
    by (simp_all add: chia_def)
  show ?thesis
    using find_matches_idx_overrun [OF params_ok_chia FxMatcher_new_inv inL inR lL lR c1,
        where L_pos_begin = 0 and 'b = 32 and 'c = 16]
      find_matches_idx_overrun [OF params_ok_chia FxMatcher_new_inv inL inR lL lR c2,
        where L_pos_begin = 0 and 'b = 32 and 'c = 16]
      params_ok_chia FxMatcher_new_inv inL inR lL lR kb mc
    by simp
qed

subsection \<open>Position and offset of a match\<close>




section \<open>The generator: metadata of the new entry\<close>

subsection \<open>Bits and bytes\<close>

lemma length_byte_bits: "length (byte_bits b) = 8"
  by (simp add: byte_bits_def)

lemma bits_byte_byte_bits: "bits_byte (byte_bits b) = b"
proof -
  have "bits_byte (byte_bits b) = horner_sum of_bool 2 (map (bit b) [0..<8])"
    by (simp only: bits_byte_def byte_bits_def rev_rev_ident)
  also have "\<dots> = take_bit 8 b" by (rule horner_sum_bit_eq_take_bit)
  also have "\<dots> = b" using take_bit_length_eq [of b] by simp
  finally show ?thesis .
qed

lemma ToBytes_byte_bits: "ToBytes (byte_bits b @ rest) = b # ToBytes rest"
proof -
  obtain x xs where bb: "byte_bits b = x # xs" and l: "length xs = 7"
    using length_byte_bits [of b] by (cases "byte_bits b") auto
  have "take 8 (x # (xs @ rest) @ replicate 7 False) = x # xs" using l by simp
  moreover have "drop 7 (xs @ rest) = rest" using l by simp
  ultimately have "ToBytes (x # xs @ rest) = bits_byte (x # xs) # ToBytes rest" by simp
  thus ?thesis using bits_byte_byte_bits [of b] by (simp add: bb)
qed

lemma ToBytes_bytes: "ToBytes (concat (map byte_bits bs) @ rest) = bs @ ToBytes rest"
  by (induction bs) (simp_all add: ToBytes_byte_bits)

lemma length_bytes_bits: "length (concat (map byte_bits bs)) = 8 * length bs"
  by (induction bs) (simp_all add: length_byte_bits)

lemma Bits_bytes_all: "Bits_bytes bs (length bs) (length bs * 8) = concat (map byte_bits bs)"
  by (simp add: Bits_bytes_def length_bytes_bits mult.commute)


lemma length_ToBytes: "length (ToBytes bs) = cdiv (length bs) 8"
proof (induction bs rule: ToBytes.induct)
  case 1 show ?case by (simp add: cdiv_def)
next
  case (2 b bs)
  have "cdiv (Suc (length bs)) 8 = Suc (cdiv (length bs - 7) 8)"
    unfolding cdiv_def by (cases "length bs < 7") (simp_all add: div_eq_0_iff le_div_geq)
  thus ?case using 2 by simp
qed

lemma cdiv_mono8: "a \<le> 8 * n \<Longrightarrow> cdiv a 8 \<le> n"
  unfolding cdiv_def by simp

lemma evaluate_input_below_4:
  assumes e: "kExtraBits c \<le> 14" and t: "table_index < 4"
    and l: "length (get_metadata h L) + length (get_metadata h R) \<le> 16"
  shows "evaluate_input c h table_index L R
         = Inr (Bits_value (unat (y L)) (k_bits + kExtraBits c)
                @ concat (map byte_bits (get_metadata h L))
                @ concat (map byte_bits (get_metadata h R)))"
proof -
  have "length (Bits_value (unat (y L)) (k_bits + kExtraBits c)
                @ concat (map byte_bits (get_metadata h L))
                @ concat (map byte_bits (get_metadata h R))) \<le> 8 * 64"
    using e l by (simp add: Bits_value_def length_bytes_bits k_bits_def)
  hence "cdiv (length (Bits_value (unat (y L)) (k_bits + kExtraBits c)
                @ concat (map byte_bits (get_metadata h L))
                @ concat (map byte_bits (get_metadata h R)))) 8 \<le> 64"
    by (rule cdiv_mono8)
  thus ?thesis
    using t l by (simp add: evaluate_input_def Let_def Bits_bytes_all Bits_plus_def GetSize_def)
qed

text \<open>
  C3.  For a table index below 4 the metadata of the new entry is the concatenation of
  the metadata bits of the left and of the right entry, not their sum: the bytes stored
  in \<^verbatim>\<open>entry.c\<close> are the metadata bytes of the left entry followed by those of the right
  one, and the string that is hashed is the \<open>k + kExtraBits\<close> bits of \<open>y\<close> of the left entry
  followed by that same concatenation.
\<close>

theorem evaluate_metadata_concat:
  assumes "kExtraBits c \<le> 14" and "table_index < 4"
    and "length (get_metadata h L) + length (get_metadata h R) \<le> 16"
    and "c_size \<le> 16"
  shows "evaluate_C c h table_index L R hash_bytes
           = Inr (concat (map byte_bits (get_metadata h L)) @ concat (map byte_bits (get_metadata h R)))
       \<and> evaluate c h c_size C_bytes table_index L R
           = Inr \<lparr> y = drop_bit (64 - (k_bits + kExtraBits c))
                          (EightBytesToInt h (take 32 (blake3 h (ToBytes
                             (Bits_value (unat (y L)) (k_bits + kExtraBits c)
                              @ concat (map byte_bits (get_metadata h L))
                              @ concat (map byte_bits (get_metadata h R))))))),
                   c_arr = take c_size (get_metadata h L @ get_metadata h R
                             @ drop (length (get_metadata h L) + length (get_metadata h R)) C_bytes) \<rparr>"
proof -
  let ?C = "concat (map byte_bits (get_metadata h L)) @ concat (map byte_bits (get_metadata h R))"
  let ?input = "Bits_value (unat (y L)) (k_bits + kExtraBits c) @ ?C"
  have C: "evaluate_C c h table_index L R hb = Inr ?C" for hb
    using assms(2) by (simp add: evaluate_C_def Let_def Bits_bytes_all Bits_plus_def)
  have i: "evaluate_input c h table_index L R = Inr ?input"
    using evaluate_input_below_4 [OF assms(1-3)] by simp
  have tb: "ToBytes ?C = get_metadata h L @ get_metadata h R"
    using ToBytes_bytes [of "get_metadata h L @ get_metadata h R" "[]"] by simp
  have lc: "length ?C = 8 * (length (get_metadata h L) + length (get_metadata h R))"
    by (simp add: length_bytes_bits)
  have cd: "cdiv (GetSize ?C) 8 \<le> 16"
    unfolding GetSize_def by (rule cdiv_mono8) (use assms(3) lc in simp)
  have tk: "take (cdiv (GetSize ?input) 8) (ToBytes ?input) = ToBytes ?input"
    by (simp add: length_ToBytes GetSize_def)
  have k: "\<not> 64 < k_bits + kExtraBits c" using assms(1) by (simp add: k_bits_def)
  have "evaluate c h c_size C_bytes table_index L R
      = Inr \<lparr> y = drop_bit (64 - (k_bits + kExtraBits c))
                    (EightBytesToInt h (take 32 (blake3 h (ToBytes ?input)))),
              c_arr = take c_size (ToBytes ?C @ drop (length (ToBytes ?C)) C_bytes) \<rparr>"
    unfolding evaluate_def i C
    using cd k assms(4) by (simp add: Let_def tk del: ToBytes.simps)
  thus ?thesis using C by (simp add: tb)
qed





theorem evaluate_metadata_concat_witness:
  "kExtraBits chia \<le> 14 \<and> (2 :: int) < 4
   \<and> length (get_metadata h0 \<lparr>y = 1\<rparr>) + length (get_metadata h0 \<lparr>y = 2\<rparr>) \<le> 16
   \<and> (2 :: nat) \<le> 16
   \<and> evaluate_C chia h0 2 \<lparr>y = 1\<rparr> \<lparr>y = 2\<rparr> []
       = Inr (byte_bits 1 @ byte_bits 2)
   \<and> evaluate chia h0 2 (replicate 16 7) 2 \<lparr>y = 1\<rparr> \<lparr>y = 2\<rparr>
       = Inr \<lparr>y = 4227265, c_arr = [1, 2]\<rparr>"
  using evaluate_metadata_concat [of chia 2 h0 "\<lparr>y = 1\<rparr>" "\<lparr>y = 2\<rparr>" 2 "[]" "replicate 16 7"]
  by (simp add: h0_def chia_def k_bits_def upt_conv_Cons)

text \<open>
  With left metadata \<open>01\<close> and right metadata \<open>02\<close> the new entry carries the two bytes
  \<open>01 02\<close>, the number 258, and not the sum 3.
\<close>

theorem evaluate_metadata_concat_counterexample:
  "evaluate chia h0 2 (replicate 16 7) 2 \<lparr>y = 1\<rparr> \<lparr>y = 2\<rparr> = Inr \<lparr>y = 4227265, c_arr = [1, 2]\<rparr>
   \<and> evaluate_C chia h0 2 \<lparr>y = 1\<rparr> \<lparr>y = 2\<rparr> [] = Inr (Bits_bytes [1, 2] 2 16)
   \<and> GetValue (Bits_bytes [1, 2] 2 16) = 258
   \<and> GetValue (Bits_bytes (get_metadata h0 \<lparr>y = 1\<rparr>) 1 8)
       + GetValue (Bits_bytes (get_metadata h0 \<lparr>y = 2\<rparr>) 1 8) = 3"
  by (simp add: evaluate_def evaluate_input_def evaluate_C_def h0_def chia_def k_bits_def cdiv_def
      Bits_plus_def Bits_bytes_def Bits_value_def GetSize_def GetValue_def byte_bits_def
      bits_byte_def upt_conv_Cons Let_def)




end
